theory Spec2Isabelle
  imports Main "HOL-Library.Multiset"
begin

section \<open>Values exchanged with the collaborators\<close>

text \<open>
  Untyped payloads of the source (\<^verbatim>\<open>any\<close>) are JSON-like values. An object is an
  association list in the order in which \<^verbatim>\<open>for (key in obj)\<close> enumerates its keys.
\<close>

datatype json =
    JUndefined
  | JNull
  | JBool bool
  | JNum int
  | JStr string
  | JArr "json list"
  | JObj "(string \<times> json) list"

text \<open>
  The decimal numeral of a number, which is how an array index reads as a key; and the
  keys that are array indices: the numerals of the numbers below 4294967295.
\<close>

fun decimal :: "nat \<Rightarrow> string" where
  "decimal n =
     (if n < 10 then [char_of (48 + n)]
      else decimal (n div 10) @ [char_of (48 + n mod 10)])"

declare decimal.simps [simp del]

definition is_digit :: "char \<Rightarrow> bool" where
  "is_digit c = (48 \<le> (of_char c :: nat) \<and> (of_char c :: nat) \<le> 57)"

definition digits_value :: "string \<Rightarrow> nat" where
  "digits_value s = foldl (\<lambda>n c. 10 * n + ((of_char c :: nat) - 48)) 0 s"

definition array_index :: "string \<Rightarrow> nat option" where
  "array_index s =
     (if s \<noteq> [] \<and> list_all is_digit s \<and> decimal (digits_value s) = s \<and>
         digits_value s < 4294967295
      then Some (digits_value s) else None)"

text \<open>
  What a promise can be rejected with, or a function can throw: an instance of
  \<^verbatim>\<open>Error\<close> with its message, some other value that is not \<^verbatim>\<open>null\<close> or
  \<^verbatim>\<open>undefined\<close>, or a nullish value (\<^verbatim>\<open>reject()\<close> rejects with \<^verbatim>\<open>undefined\<close>).
\<close>

datatype thrown = ErrorInst string | NonError | Nullish

section \<open>Messages, users, envelopes, branches and paths\<close>

text \<open>
  Modelled from the spec: the user, message, envelope, branch and path modules are not
  part of the sources at hand. A user is an identity record with a stable id; a message is
  the tagged variant of the data model; a text message may carry an NLU result. The text
  of a message is the list of its UTF-16 code units, which is what \<^verbatim>\<open>trim\<close> and
  \<^verbatim>\<open>length\<close> read.
\<close>

type_synonym code_units = "nat list"

text \<open>The code units of a text written in ASCII.\<close>

definition units :: "string \<Rightarrow> code_units" where
  "units s = map of_char s"

record user =
  uid :: string
  uname :: "string option"
  uroom :: "string option"

datatype message =
    Text user code_units string "json option"
  | Enter user string
  | Leave user string
  | Rich user json string
  | Server user json string
  | CatchAll message

fun message_user :: "message \<Rightarrow> user" where
  "message_user (Text u _ _ _) = u"
| "message_user (Enter u _) = u"
| "message_user (Leave u _) = u"
| "message_user (Rich u _ _) = u"
| "message_user (Server u _ _) = u"
| "message_user (CatchAll m) = message_user m"

definition catchAll :: "message \<Rightarrow> message" where
  "catchAll m = CatchAll m"

record envelope =
  eid :: string
  branchId :: "string option"
  responded :: "nat option"

record branch =
  bid :: string
  force :: bool

text \<open>
  A branch collection \<^verbatim>\<open>{ [id: string]: Branch }\<close> is the list of its branches in
  insertion order, keyed by \<^const>\<open>bid\<close>. \<^verbatim>\<open>for (let id in branches)\<close> does not
  run over it in that order: it visits the ids that are array indices first, in
  ascending numeric order, and then the other ids in insertion order.
\<close>

definition index_key :: "branch \<Rightarrow> nat" where
  "index_key br = (case array_index (bid br) of None \<Rightarrow> 0 | Some n \<Rightarrow> n)"

definition for_in_branches :: "branch list \<Rightarrow> branch list" where
  "for_in_branches bs =
     sort_key index_key (filter (\<lambda>br. array_index (bid br) \<noteq> None) bs) @
     filter (\<lambda>br. array_index (bid br) = None) bs"

record path =
  listen :: "branch list"
  understand :: "branch list"
  serve :: "branch list"
  act :: "branch list"

definition empty_path :: path where
  "empty_path = \<lparr>listen = [], understand = [], serve = [], act = []\<rparr>"

definition hasBranches :: "path \<Rightarrow> bool" where
  "hasBranches p = (listen p \<noteq> [] \<or> understand p \<noteq> [] \<or> serve p \<noteq> [] \<or> act p \<noteq> [])"

datatype stage_key = Listen | Understand | Serve | Act

fun collection :: "stage_key \<Rightarrow> path \<Rightarrow> branch list" where
  "collection Listen p = listen p"
| "collection Understand p = understand p"
| "collection Serve p = serve p"
| "collection Act p = act p"

fun forced :: "stage_key \<Rightarrow> path \<Rightarrow> path" where
  "forced Listen p = p\<lparr>listen := filter force (listen p)\<rparr>"
| "forced Understand p = p\<lparr>understand := filter force (understand p)\<rparr>"
| "forced Serve p = p\<lparr>serve := filter force (serve p)\<rparr>"
| "forced Act p = p\<lparr>act := filter force (act p)\<rparr>"

section \<open>The state of one run and the world around it\<close>

text \<open>
  The state \<^verbatim>\<open>b\<close> of the source. \<^verbatim>\<open>processed\<close> maps a stage name to the timestamp of
  its first success. Modelled from the spec: \<^verbatim>\<open>finish()\<close> sets \<^verbatim>\<open>done\<close>, and
  \<^verbatim>\<open>dispatchedEnvelope()\<close> is an envelope of the outbound queue that was dispatched.
\<close>

record state =
  b_message :: "message option"
  b_envelopes :: "envelope list option"
  b_sequence :: "string option"
  b_processed :: "string \<rightharpoonup> nat"
  b_matched :: bool
  b_done :: bool
  b_exit :: bool
  b_branch :: "branch option"

definition create :: "message option \<Rightarrow> envelope list option \<Rightarrow> state" where
  "create m es = \<lparr>b_message = m, b_envelopes = es, b_sequence = None,
     b_processed = Map.empty, b_matched = False, b_done = False, b_exit = False,
     b_branch = None\<rparr>"

definition finish :: "state \<Rightarrow> state" where
  "finish s = s\<lparr>b_done := True\<rparr>"

definition pendingEnvelope :: "state \<Rightarrow> envelope option" where
  "pendingEnvelope s =
     (case b_envelopes s of None \<Rightarrow> None
      | Some es \<Rightarrow> find (\<lambda>e. responded e = None) es)"

definition dispatchedEnvelope :: "state \<Rightarrow> envelope option" where
  "dispatchedEnvelope s =
     (case b_envelopes s of None \<Rightarrow> None
      | Some es \<Rightarrow> find (\<lambda>e. responded e \<noteq> None) es)"

record dialogue =
  dpath :: path
  previousPath :: "path option"

text \<open>
  Everything a run can read or change: the state, the path the stages read their
  branches from, the clock behind \<^verbatim>\<open>Date.now()\<close>, the user directory, what was handed
  to \<^verbatim>\<open>store.keep\<close> and to the message adapter, and the dialogue registry.
\<close>

record world =
  st :: state
  path :: path
  clock :: nat
  users :: "string \<rightharpoonup> user"
  kept :: "(string \<times> state) list"
  sent :: "envelope list"
  dialogues :: "string \<rightharpoonup> dialogue"

definition upd_st :: "(state \<Rightarrow> state) \<Rightarrow> world \<Rightarrow> world" where
  "upd_st f w = w\<lparr>st := f (st w)\<rparr>"

text \<open>Modelled from the spec: \<^verbatim>\<open>user.byId(id, meta)\<close> updates the directory entry of \<^verbatim>\<open>id\<close>.\<close>

definition byId :: "string \<Rightarrow> user \<Rightarrow> world \<Rightarrow> world" where
  "byId i u w = w\<lparr>users := (users w)(i \<mapsto> u)\<rparr>"

text \<open>
  How an awaited call ends: it resolves with a value, it rejects, or it never settles.
  Each outcome carries the world the call leaves behind.
\<close>

datatype 'a settled =
    Resolved 'a world
  | Rejected thrown world
  | Pending world

fun world_of :: "'a settled \<Rightarrow> world" where
  "world_of (Resolved _ w) = w"
| "world_of (Rejected _ w) = w"
| "world_of (Pending w) = w"

text \<open>
  The middleware module is not part of the sources at hand; a stage's middleware is a
  parameter. Modelled from the spec: executing it either completes (every piece called
  \<^verbatim>\<open>next\<close>, so the terminal action runs), short-circuits (a piece called \<^verbatim>\<open>done\<close>,
  the terminal action does not run), or rejects with what a piece threw.
\<close>

datatype mw_result =
    Completed world
  | ShortCircuit world
  | MwRejected thrown world

fun mw_world :: "mw_result \<Rightarrow> world" where
  "mw_world (Completed w) = w"
| "mw_world (ShortCircuit w) = w"
| "mw_world (MwRejected _ w) = w"

datatype nlu_outcome =
    NluResult "(string \<times> json) list option"
  | NluFails thrown

text \<open>
  The collaborators of a run, fixed while it runs: the adapters, the one setting the
  stages read, the middleware registry, what processing a branch does
  (\<^verbatim>\<open>branches[id].process(b, middleware)\<close>), the NLU normalisation, the audience key of
  the dialogue registry and the global path.
\<close>

record env =
  nlu_adapter :: "(message \<Rightarrow> nlu_outcome) option"
  storage_adapter :: bool
  message_adapter :: "(envelope \<Rightarrow> world \<Rightarrow> unit settled) option"
  nlu_min_length :: "int option"
  middlewares :: "string \<Rightarrow> world \<Rightarrow> mw_result"
  branch_process :: "branch \<Rightarrow> (world \<Rightarrow> mw_result) \<Rightarrow> world \<Rightarrow> unit settled"
  addResults :: "(string \<times> json) list \<Rightarrow> json"
  audience :: "state \<Rightarrow> string"
  global :: path

section \<open>The validators of the built-in stages\<close>

text \<open>
  \<^verbatim>\<open>String.prototype.trim\<close> removes white space and line terminators at both ends. White
  space is TAB, VT, FF, SP, NBSP (U+00A0), the byte order mark (U+FEFF) and the space
  separators U+1680, U+2000 to U+200A, U+202F, U+205F and U+3000 (U+180E is not a space
  separator since Unicode 6.3); the line terminators are LF, CR, U+2028 and U+2029.
\<close>

definition is_space :: "nat \<Rightarrow> bool" where
  "is_space c =
     (c \<in> set [9, 10, 11, 12, 13, 32, 160, 5760, 8232, 8233, 8239, 8287, 12288, 65279] \<or>
      (8192 \<le> c \<and> c \<le> 8202))"

definition trim :: "code_units \<Rightarrow> code_units" where
  "trim s = rev (dropWhile is_space (rev (dropWhile is_space s)))"

fun toString :: "message \<Rightarrow> code_units" where
  "toString (Text _ t _ _) = t"
| "toString _ = []"

fun set_nlu :: "json \<Rightarrow> message \<Rightarrow> message" where
  "set_nlu r (Text u t i _) = Text u t i (Some r)"
| "set_nlu r m = m"

definition understand_validate :: "env \<Rightarrow> world \<Rightarrow> bool settled" where
  "understand_validate E w =
     (case nlu_adapter E of
        None \<Rightarrow> Resolved False w
      | Some process \<Rightarrow>
          (case b_message (st w) of
             Some (Text u t i n) \<Rightarrow>
               if trim t = [] then Resolved False w
               else if (case nlu_min_length E of
                          None \<Rightarrow> False
                        | Some m \<Rightarrow> m \<noteq> 0 \<and> int (length (trim t)) < m)
               then Resolved False w
               else (case process (Text u t i n) of
                       NluFails e \<Rightarrow> Rejected e w
                     | NluResult None \<Rightarrow> Resolved False w
                     | NluResult (Some raw) \<Rightarrow>
                         if raw = [] then Resolved False w
                         else Resolved True
                           (upd_st (\<lambda>s. s\<lparr>b_message :=
                              Some (set_nlu (addResults E raw) (Text u t i n))\<rparr>) w))
           | _ \<Rightarrow> Resolved False w))"

definition act_validate :: "world \<Rightarrow> bool settled" where
  "act_validate w =
     (if b_matched (st w) then Resolved False w
      else Resolved True
        (case b_message (st w) of
           None \<Rightarrow> w
         | Some m \<Rightarrow> upd_st (\<lambda>s. s\<lparr>b_message := Some (catchAll m)\<rparr>) w))"

definition remember_check :: "env \<Rightarrow> world \<Rightarrow> bool settled" where
  "remember_check E w =
     (if \<not> storage_adapter E then Resolved False w
      else if \<not> b_matched (st w) \<and> dispatchedEnvelope (st w) = None then Resolved False w
      else Resolved True w)"

text \<open>
  \<^verbatim>\<open>b.message.user.id\<close> is read only when \<^verbatim>\<open>b.matched\<close>; without a message the read
  throws a \<^verbatim>\<open>TypeError\<close>.
\<close>

definition remember_validate :: "env \<Rightarrow> world \<Rightarrow> bool settled" where
  "remember_validate E w =
     (if b_matched (st w) then
        (case b_message (st w) of
           None \<Rightarrow> Rejected (ErrorInst ''TypeError'') w
         | Some m \<Rightarrow> remember_check E (byId (uid (message_user m)) (message_user m) w))
      else remember_check E w)"

definition getBranch :: "state \<Rightarrow> branch option" where
  "getBranch s = b_branch s"

fun update_first :: "('a \<Rightarrow> bool) \<Rightarrow> ('a \<Rightarrow> 'a) \<Rightarrow> 'a list \<Rightarrow> 'a list" where
  "update_first P f [] = []"
| "update_first P f (x # xs) = (if P x then f x # xs else x # update_first P f xs)"

definition update_pending :: "(envelope \<Rightarrow> envelope) \<Rightarrow> state \<Rightarrow> state" where
  "update_pending f s =
     s\<lparr>b_envelopes := map_option (update_first (\<lambda>e. responded e = None) f) (b_envelopes s)\<rparr>"

definition respond_validate :: "env \<Rightarrow> world \<Rightarrow> bool settled" where
  "respond_validate E w =
     (case message_adapter E of
        None \<Rightarrow> Rejected (ErrorInst ''[thought] message adapter not found'') w
      | Some _ \<Rightarrow>
          (case pendingEnvelope (st w) of
             None \<Rightarrow> Resolved False w
           | Some _ \<Rightarrow>
               (case getBranch (st w) of
                  None \<Rightarrow> Resolved True w
                | Some br \<Rightarrow>
                    Resolved True (upd_st (update_pending (\<lambda>e. e\<lparr>branchId := Some (bid br)\<rparr>)) w))))"

section \<open>One stage: \<^verbatim>\<open>Thought.process\<close>\<close>

record thought =
  name :: string
  validate :: "world \<Rightarrow> bool settled"
  action :: "bool \<Rightarrow> world \<Rightarrow> unit settled"
  middleware :: "world \<Rightarrow> mw_result"
  branches :: "branch list option"

text \<open>
  What a run did, in order: a branch was handed to \<^verbatim>\<open>process\<close> in a world, or a stage's
  action was called with a success flag in a world. The stages write this trace; the
  callbacks of a run cannot.
\<close>

datatype event =
    is_Evaluated: Evaluated (ev_id: string) (ev_before: world)
  | Acted string bool world

text \<open>
  The loop \<^verbatim>\<open>for (let id in branches) { if (b.done) break; await branches[id].process(b, middleware) }\<close>
  over the branches in the order in which \<^verbatim>\<open>for...in\<close> visits them, the collection
  being as it is when the stage starts.
\<close>

fun process_branches ::
  "env \<Rightarrow> (world \<Rightarrow> mw_result) \<Rightarrow> branch list \<Rightarrow> world \<Rightarrow> event list \<times> unit settled" where
  "process_branches E mw [] w = ([], Resolved () w)"
| "process_branches E mw (br # brs) w =
     (if b_done (st w) then ([], Resolved () w)
      else (case branch_process E br mw w of
              Resolved _ w' \<Rightarrow>
                (case process_branches E mw brs w' of (evs, r) \<Rightarrow> (Evaluated (bid br) w # evs, r))
            | Rejected e w' \<Rightarrow> ([Evaluated (bid br) w], Rejected e w')
            | Pending w' \<Rightarrow> ([Evaluated (bid br) w], Pending w')))"

text \<open>
  The handler \<^verbatim>\<open>.catch((err) => { logger.debug(`... ${err.message}`); reject(err) })\<close>:
  reading \<^verbatim>\<open>message\<close> of a nullish value throws inside the handler, so \<^verbatim>\<open>reject\<close> is
  never called and the stage's promise never settles.
\<close>

definition inner_catch :: "thrown \<Rightarrow> world \<Rightarrow> unit settled" where
  "inner_catch err w = (case err of Nullish \<Rightarrow> Pending w | _ \<Rightarrow> Rejected err w)"

text \<open>
  The promise \<^verbatim>\<open>new Promise((resolve, reject) => ...)\<close> of \<^verbatim>\<open>process\<close>. A validator
  is an asynchronous function, as the built-in ones are: what it throws rejects the
  promise it returns.
\<close>

definition attempt :: "env \<Rightarrow> thought \<Rightarrow> world \<Rightarrow> event list \<times> unit settled" where
  "attempt E T w =
     (if (case branches T of None \<Rightarrow> False | Some bs \<Rightarrow> bs = [] \<or> b_done (st w))
      then ([], Rejected Nullish w)
      else (case validate T w of
              Rejected err w1 \<Rightarrow> ([], inner_catch err w1)
            | Pending w1 \<Rightarrow> ([], Pending w1)
            | Resolved valid w1 \<Rightarrow>
                if \<not> valid then ([], Rejected Nullish w1)
                else (case branches T of
                        None \<Rightarrow>
                          (case middleware T w1 of
                             Completed w2 \<Rightarrow> ([], Resolved () w2)
                           | ShortCircuit w2 \<Rightarrow> ([], Rejected NonError w2)
                           | MwRejected err w2 \<Rightarrow> ([], inner_catch err w2))
                      | Some bs \<Rightarrow>
                          (case process_branches E (middleware T) (for_in_branches bs) w1 of
                             (evs, Resolved _ w2) \<Rightarrow>
                               (evs, if b_matched (st w2) then Resolved () w2
                                     else Rejected Nullish w2)
                           | (evs, Rejected err w2) \<Rightarrow> (evs, inner_catch err w2)
                           | (evs, Pending w2) \<Rightarrow> (evs, Pending w2)))))"

text \<open>\<^verbatim>\<open>!this.b.processed[this.name]\<close>: no timestamp, or the timestamp 0.\<close>

definition falsy :: "nat option \<Rightarrow> bool" where
  "falsy t = (t = None \<or> t = Some 0)"

definition stamp :: "string \<Rightarrow> world \<Rightarrow> world" where
  "stamp n w =
     (if falsy (b_processed (st w) n)
      then upd_st (\<lambda>s. s\<lparr>b_processed := (b_processed s)(n \<mapsto> clock w)\<rparr>) w
      else w)"

text \<open>The handler of \<^verbatim>\<open>.catch\<close> that ends \<^verbatim>\<open>process\<close>: an \<^verbatim>\<open>Error\<close> is thrown on.\<close>

definition on_rejected :: "thought \<Rightarrow> thrown \<Rightarrow> world \<Rightarrow> event list \<times> unit settled" where
  "on_rejected T err w =
     (case err of
        ErrorInst m \<Rightarrow> ([], Rejected err w)
      | _ \<Rightarrow> ([Acted (name T) False w], action T False w))"

text \<open>
  The handler of \<^verbatim>\<open>.then\<close>; the \<^verbatim>\<open>.catch\<close> chained after it also receives what
  \<^verbatim>\<open>action(true)\<close> rejects with.
\<close>

definition on_fulfilled :: "thought \<Rightarrow> world \<Rightarrow> event list \<times> unit settled" where
  "on_fulfilled T w =
     (case action T True (stamp (name T) w) of
        Rejected err w2 \<Rightarrow>
          (case on_rejected T err w2 of
             (evs, r) \<Rightarrow> (Acted (name T) True (stamp (name T) w) # evs, r))
      | r \<Rightarrow> ([Acted (name T) True (stamp (name T) w)], r))"

definition thought_process :: "env \<Rightarrow> thought \<Rightarrow> world \<Rightarrow> event list \<times> unit settled" where
  "thought_process E T w =
     (if b_exit (st w) then ([], Resolved () w)
      else (case attempt E T w of
              (evs, Resolved _ w1) \<Rightarrow>
                (case on_fulfilled T w1 of (evs', r) \<Rightarrow> (evs @ evs', r))
            | (evs, Rejected err w1) \<Rightarrow>
                (case on_rejected T err w1 of (evs', r) \<Rightarrow> (evs @ evs', r))
            | (evs, Pending w1) \<Rightarrow> (evs, Pending w1)))"

section \<open>The orchestrator: \<^verbatim>\<open>Thoughts\<close>\<close>

definition default_validate :: "world \<Rightarrow> bool settled" where
  "default_validate w = Resolved True w"

definition default_action :: "bool \<Rightarrow> world \<Rightarrow> unit settled" where
  "default_action success w = Resolved () w"

definition hear_action :: "bool \<Rightarrow> world \<Rightarrow> unit settled" where
  "hear_action success w = (if \<not> success then Resolved () (upd_st finish w) else Resolved () w)"

definition listen_action :: "bool \<Rightarrow> world \<Rightarrow> unit settled" where
  "listen_action success w =
     (if success then Resolved () (w\<lparr>path := forced Understand (path w)\<rparr>) else Resolved () w)"

text \<open>
  Modelled from the spec: \<^verbatim>\<open>respondEnvelope()\<close> is the pending envelope of the outbound
  queue; the stage hands it to the message adapter and then records when it responded.
  Without a message adapter or an envelope the calls on \<^verbatim>\<open>undefined\<close> throw.
\<close>

definition respondEnvelope :: "state \<Rightarrow> envelope option" where
  "respondEnvelope s = pendingEnvelope s"

definition respond_action :: "env \<Rightarrow> bool \<Rightarrow> world \<Rightarrow> unit settled" where
  "respond_action E success w =
     (if \<not> success then Resolved () w
      else (case (message_adapter E, respondEnvelope (st w)) of
              (Some dispatch, Some e) \<Rightarrow>
                (case dispatch e w of
                   Resolved _ w' \<Rightarrow>
                     Resolved () (upd_st (update_pending (\<lambda>e. e\<lparr>responded := Some (clock w')\<rparr>)) w')
                 | r \<Rightarrow> r)
            | _ \<Rightarrow> Rejected (ErrorInst ''TypeError'') w))"

text \<open>Modelled from the spec: \<^verbatim>\<open>store.keep('states', b)\<close> appends the state to the store.\<close>

definition remember_action :: "bool \<Rightarrow> world \<Rightarrow> unit settled" where
  "remember_action success w =
     (if success then Resolved () (w\<lparr>kept := kept w @ [(''states'', st w)]\<rparr>) else Resolved () w)"

text \<open>
  The stage table of the constructor. A stage holds a reference to its collection of the
  path, so it reads the collection as the path has it when the stage starts.
\<close>

definition processes :: "env \<Rightarrow> string \<Rightarrow> world \<Rightarrow> thought option" where
  "processes E n w =
     (if n = ''hear'' then Some \<lparr>name = ''hear'', validate = default_validate,
          action = hear_action, middleware = middlewares E ''hear'', branches = None\<rparr>
      else if n = ''listen'' then Some \<lparr>name = ''listen'', validate = default_validate,
          action = listen_action, middleware = middlewares E ''listen'',
          branches = Some (listen (path w))\<rparr>
      else if n = ''understand'' then Some \<lparr>name = ''understand'',
          validate = understand_validate E, action = default_action,
          middleware = middlewares E ''understand'', branches = Some (understand (path w))\<rparr>
      else if n = ''serve'' then Some \<lparr>name = ''serve'', validate = default_validate,
          action = default_action, middleware = middlewares E ''serve'',
          branches = Some (serve (path w))\<rparr>
      else if n = ''act'' then Some \<lparr>name = ''act'', validate = act_validate,
          action = default_action, middleware = middlewares E ''act'',
          branches = Some (act (path w))\<rparr>
      else if n = ''respond'' then Some \<lparr>name = ''respond'', validate = respond_validate E,
          action = respond_action E, middleware = middlewares E ''respond'', branches = None\<rparr>
      else if n = ''remember'' then Some \<lparr>name = ''remember'', validate = remember_validate E,
          action = remember_action, middleware = middlewares E ''remember'', branches = None\<rparr>
      else None)"

definition sequence :: "string \<Rightarrow> string list option" where
  "sequence k =
     (if k = ''serve'' then Some [''hear'', ''serve'', ''act'', ''remember'']
      else if k = ''receive'' then Some [''hear'', ''listen'', ''understand'', ''act'', ''remember'']
      else if k = ''respond'' then Some [''respond'']
      else if k = ''dispatch'' then Some [''respond'', ''remember'']
      else None)"

text \<open>The loop of \<^verbatim>\<open>start\<close>: each stage is awaited before the next one begins.\<close>

fun run :: "env \<Rightarrow> string list \<Rightarrow> world \<Rightarrow> event list \<times> unit settled" where
  "run E [] w = ([], Resolved () w)"
| "run E (n # ns) w =
     (case processes E n w of
        None \<Rightarrow> ([], Rejected (ErrorInst ''TypeError'') w)
      | Some T \<Rightarrow>
          (case thought_process E T w of
             (evs, Resolved _ w1) \<Rightarrow> (case run E ns w1 of (evs', r) \<Rightarrow> (evs @ evs', r))
           | (evs, r) \<Rightarrow> (evs, r)))"

text \<open>
  The table of sequences is a plain object, so \<^verbatim>\<open>this.sequence[sequence]\<close> also finds
  what every object inherits; such a value passes the test of \<^verbatim>\<open>start\<close> and cannot be
  iterated.
\<close>

definition inherited :: "string \<Rightarrow> bool" where
  "inherited k =
     (k \<in> set [''constructor'', ''toString'', ''toLocaleString'', ''valueOf'',
        ''hasOwnProperty'', ''isPrototypeOf'', ''propertyIsEnumerable'', ''__proto__'',
        ''__defineGetter__'', ''__defineSetter__'', ''__lookupGetter__'', ''__lookupSetter__''])"

definition name_sequence :: "string \<Rightarrow> world \<Rightarrow> world" where
  "name_sequence k w =
     (if b_sequence (st w) = None \<or> b_sequence (st w) = Some []
      then upd_st (\<lambda>s. s\<lparr>b_sequence := Some k\<rparr>) w else w)"

definition start :: "env \<Rightarrow> string \<Rightarrow> world \<Rightarrow> event list \<times> unit settled" where
  "start E k w =
     (case sequence k of
        None \<Rightarrow>
          if inherited k then ([], Rejected (ErrorInst ''TypeError'') (name_sequence k w))
          else ([], Rejected (ErrorInst ''[thought] invalid sequence'') w)
      | Some ns \<Rightarrow> run E ns (name_sequence k w))"

section \<open>Dialogues and \<^verbatim>\<open>receive\<close>\<close>

text \<open>
  Modelled from the spec: the dialogue module is not part of the sources at hand.
  \<^verbatim>\<open>engaged\<close> finds the dialogue of the state's audience in the registry;
  \<^verbatim>\<open>progressPath\<close> keeps the current path as the previous one, installs a fresh empty
  path for the branches that callbacks add, and hands the path that was current to the
  run; \<^verbatim>\<open>revertPath\<close> restores the previous path; \<^verbatim>\<open>close\<close> removes the dialogue.
\<close>

definition engaged :: "env \<Rightarrow> state \<Rightarrow> world \<Rightarrow> dialogue option" where
  "engaged E s w = dialogues w (audience E s)"

definition progressPath :: "dialogue \<Rightarrow> path \<times> dialogue" where
  "progressPath d = (dpath d, d\<lparr>previousPath := Some (dpath d), dpath := empty_path\<rparr>)"

definition revertPath :: "dialogue \<Rightarrow> dialogue" where
  "revertPath d =
     (case previousPath d of None \<Rightarrow> d | Some p \<Rightarrow> d\<lparr>dpath := p, previousPath := None\<rparr>)"

definition close :: "string \<Rightarrow> world \<Rightarrow> world" where
  "close k w = w\<lparr>dialogues := (dialogues w)(k := None)\<rparr>"

text \<open>
  What \<^verbatim>\<open>receive\<close> does with the dialogue once the run has returned. The dialogue is
  the object found before the run, read as the registry has it after the run.
\<close>

definition settle_dialogue :: "string \<Rightarrow> world \<Rightarrow> world" where
  "settle_dialogue k w =
     (case dialogues w k of
        None \<Rightarrow> w
      | Some d \<Rightarrow>
          if \<not> b_matched (st w) then w\<lparr>dialogues := (dialogues w)(k \<mapsto> revertPath d)\<rparr>
          else if hasBranches (dpath d) then close k w
          else w)"

definition receive ::
  "env \<Rightarrow> message \<Rightarrow> path option \<Rightarrow> world \<Rightarrow> event list \<times> state settled" where
  "receive E m p w =
     (let startingState = create (Some m) None;
          k = audience E startingState;
          dlg = engaged E startingState w;
          (p1, w1) =
            (case (dlg, p) of
               (Some d, None) \<Rightarrow>
                 (Some (fst (progressPath d)),
                  w\<lparr>dialogues := (dialogues w)(k \<mapsto> snd (progressPath d))\<rparr>)
             | _ \<Rightarrow> (p, w));
          w2 = w1\<lparr>st := startingState,
                  path := (case p1 of None \<Rightarrow> global E | Some q \<Rightarrow> q)\<rparr>
      in (case start E ''receive'' w2 of
            (evs, Resolved _ w3) \<Rightarrow>
              (evs, Resolved (st w3) (if dlg = None then w3 else settle_dialogue k w3))
          | (evs, Rejected err w3) \<Rightarrow> (evs, Rejected err w3)
          | (evs, Pending w3) \<Rightarrow> (evs, Pending w3)))"

section \<open>The Rocket.Chat message adapter\<close>

text \<open>
  The envelope as \<^verbatim>\<open>respond\<close> reads it: the strings, the user, the id of the room and
  the id of the message reacted to, each of which may be missing. What the adapter asks
  of the SDK's driver is kept as the list of its calls, in order; the driver is an
  external collaborator and its calls are taken to succeed.
\<close>

record rc_user =
  user_id :: string
  username :: "string option"

record rc_envelope =
  e_strings :: "string list option"
  e_user :: "rc_user option"
  e_room_id :: "string option"
  e_message_id :: "string option"

datatype driver_call =
    SendToRoomId string string
  | SendDirectToUser string "string option"
  | SetReaction string string

text \<open>The keys of an array, as \<^verbatim>\<open>for (let text in array)\<close> yields them.\<close>

definition keys_in :: "'a list \<Rightarrow> string list" where
  "keys_in xs = map decimal [0..<length xs]"

text \<open>\<^verbatim>\<open>s.indexOf(t)\<close>: where \<^verbatim>\<open>t\<close> first occurs in \<^verbatim>\<open>s\<close>, or \<open>-1\<close>.\<close>

fun indexOf_from :: "nat \<Rightarrow> string \<Rightarrow> string \<Rightarrow> int" where
  "indexOf_from i [] t = (if t = [] then int i else - 1)"
| "indexOf_from i (c # cs) t =
     (if take (length t) (c # cs) = t then int i else indexOf_from (Suc i) cs t)"

definition indexOf :: "string \<Rightarrow> string \<Rightarrow> int" where
  "indexOf s t = indexOf_from 0 s t"

text \<open>A value in a template literal: \<^verbatim>\<open>undefined\<close> prints as its name.\<close>

definition template :: "string option \<Rightarrow> string" where
  "template v = (case v of None \<Rightarrow> ''undefined'' | Some s \<Rightarrow> s)"

definition startsWith :: "string \<Rightarrow> char \<Rightarrow> bool" where
  "startsWith s c = (case s of [] \<Rightarrow> False | d # _ \<Rightarrow> d = c)"

definition endsWith :: "string \<Rightarrow> char \<Rightarrow> bool" where
  "endsWith s c = (s \<noteq> [] \<and> last s = c)"

fun replace_first :: "char \<Rightarrow> char \<Rightarrow> string \<Rightarrow> string" where
  "replace_first a b [] = []"
| "replace_first a b (c # cs) = (if c = a then b # cs else c # replace_first a b cs)"

definition emoji_name :: "string \<Rightarrow> string" where
  "emoji_name k =
     (let e1 = (if \<not> startsWith k CHR '':'' then CHR '':'' # k else k);
          e2 = (if \<not> endsWith e1 CHR '':'' then e1 @ '':'' else e1)
      in replace_first CHR ''-'' CHR ''_'' e2)"

text \<open>
  \<^verbatim>\<open>Rocketchat.respond\<close>: an error message, or the calls made and the envelope as the
  method leaves it. Every loop is \<^verbatim>\<open>for (let text in envelope.strings)\<close>, which runs
  over the keys of the array.
\<close>

definition respond :: "rc_envelope \<Rightarrow> string \<Rightarrow> string + driver_call list \<times> rc_envelope" where
  "respond e method =
     (if method = ''send'' then
        (case e_strings e of
           None \<Rightarrow> Inl ''Sending without strings''
         | Some ss \<Rightarrow>
             (case e_room_id e of
                None \<Rightarrow> Inl ''Sending without room ID''
              | Some r \<Rightarrow>
                  if r = [] then Inl ''Sending without room ID''
                  else Inr (map (\<lambda>text. SendToRoomId text r) (keys_in ss), e)))
      else if method = ''dm'' then
        (case e_strings e of
           None \<Rightarrow> Inl ''DM without strings''
         | Some ss \<Rightarrow>
             (case e_user e of
                None \<Rightarrow> Inl ''DM without user''
              | Some u \<Rightarrow> Inr (map (\<lambda>text. SendDirectToUser text (username u)) (keys_in ss), e)))
      else if method = ''reply'' then
        (case e_strings e of
           None \<Rightarrow> Inl ''Reply without strings''
         | Some ss \<Rightarrow>
             (case e_user e of
                None \<Rightarrow> Inl ''Reply without user''
              | Some u \<Rightarrow>
                  (case e_room_id e of
                     None \<Rightarrow> Inl ''Reply without room ID''
                   | Some r \<Rightarrow>
                       if r = [] then Inl ''Reply without room ID''
                       else
                         (let ss' = (if indexOf r (user_id u) = - 1
                                     then map (\<lambda>s. ''@'' @ template (username u) @ '' '' @ s) ss
                                     else ss)
                          in Inr (map (\<lambda>text. SendToRoomId text r) (keys_in ss'),
                                  e\<lparr>e_strings := Some ss'\<rparr>)))))
      else if method = ''react'' then
        (case e_strings e of
           None \<Rightarrow> Inl ''React without strings''
         | Some ss \<Rightarrow>
             (case e_message_id e of
                None \<Rightarrow> Inl ''React without message''
              | Some m \<Rightarrow> Inr (map (\<lambda>emoji. SetReaction (emoji_name emoji) m) (keys_in ss), e)))
      else Inl (''Rocket.Chat adapter has no '' @ method @ '' handler''))"

section \<open>The Mongo storage adapter\<close>

text \<open>
  One collection of documents \<^verbatim>\<open>{ type, sub, data }\<close>, in the order in which the
  database returns them. The schema declares \<^verbatim>\<open>sub\<close> with \<^verbatim>\<open>lowercase: true\<close>, so a
  \<^verbatim>\<open>sub\<close> goes through \<^verbatim>\<open>String.prototype.toLowerCase\<close> wherever it is cast, in a
  query as in a stored document. That built-in is the parameter \<open>toLowerCase\<close> of the
  operations below.
\<close>

record store_doc =
  doc_type :: string
  sub :: string
  data :: json

text \<open>
  \<^verbatim>\<open>findOneAndUpdate({ sub, type: 'memory' }, { data }, { upsert: true })\<close>: the first
  document of that sub-collection gets the data; without one, a document is inserted.
\<close>

fun upsert_memory ::
  "(string \<Rightarrow> string) \<Rightarrow> string \<Rightarrow> json \<Rightarrow> store_doc list \<Rightarrow> store_doc list" where
  "upsert_memory toLowerCase s v [] = [\<lparr>doc_type = ''memory'', sub = toLowerCase s, data = v\<rparr>]"
| "upsert_memory toLowerCase s v (d # ds) =
     (if doc_type d = ''memory'' \<and> sub d = toLowerCase s then d\<lparr>data := v\<rparr> # ds
      else d # upsert_memory toLowerCase s v ds)"

fun saveMemory ::
  "(string \<Rightarrow> string) \<Rightarrow> (string \<times> json) list \<Rightarrow> store_doc list \<Rightarrow> store_doc list" where
  "saveMemory toLowerCase [] db = db"
| "saveMemory toLowerCase ((s, v) # rest) db =
     saveMemory toLowerCase rest (upsert_memory toLowerCase s v db)"

text \<open>\<^verbatim>\<open>obj[k] = v\<close> on an object kept as the list of its entries.\<close>

fun obj_set :: "string \<Rightarrow> 'v \<Rightarrow> (string \<times> 'v) list \<Rightarrow> (string \<times> 'v) list" where
  "obj_set k v [] = [(k, v)]"
| "obj_set k v ((k', v') # kvs) =
     (if k = k' then (k, v) # kvs else (k', v') # obj_set k v kvs)"

text \<open>The keys \<^verbatim>\<open>for (let id in value)\<close> runs over, each with \<^verbatim>\<open>value[id]\<close>.\<close>

fun for_in :: "json \<Rightarrow> (string \<times> json) list" where
  "for_in (JObj kvs) = kvs"
| "for_in (JArr xs) = zip (keys_in xs) xs"
| "for_in (JStr s) = zip (keys_in s) (map (\<lambda>c. JStr [c]) s)"
| "for_in _ = []"

text \<open>
  What \<^verbatim>\<open>loadMemory\<close> returns under a key: the rehydrated users under \<^verbatim>\<open>users\<close>, the
  stored data as it is under any other key. The constructor of user objects is a
  parameter.
\<close>

datatype 'u entry = Users "(string \<times> 'u) list" | Plain json

fun load_users :: "(json \<Rightarrow> 'u) \<Rightarrow> (string \<times> json) list \<Rightarrow> (string \<times> 'u) list \<Rightarrow> (string \<times> 'u) list" where
  "load_users newUser [] us = us"
| "load_users newUser ((i, r) # rest) us = load_users newUser rest (obj_set i (newUser r) us)"

fun load_docs ::
  "(json \<Rightarrow> 'u) \<Rightarrow> store_doc list \<Rightarrow> (string \<times> 'u entry) list \<Rightarrow> (string \<times> 'u entry) list" where
  "load_docs newUser [] memory = memory"
| "load_docs newUser (d # ds) memory =
     load_docs newUser ds
       (if sub d = ''users''
        then obj_set ''users''
               (Users (load_users newUser (for_in (data d))
                  (case map_of memory ''users'' of Some (Users us) \<Rightarrow> us | _ \<Rightarrow> [])))
               memory
        else obj_set (sub d) (Plain (data d)) memory)"

definition loadMemory :: "(json \<Rightarrow> 'u) \<Rightarrow> store_doc list \<Rightarrow> (string \<times> 'u entry) list" where
  "loadMemory newUser db = load_docs newUser (filter (\<lambda>d. doc_type d = ''memory'') db) []"

text \<open>
  The mapping \<open>x\<close> as \<^verbatim>\<open>loadMemory\<close> is to return it according to the round-trip law:
  the records under \<^verbatim>\<open>users\<close> rehydrated, every other entry unchanged.
\<close>

definition rehydrate :: "(json \<Rightarrow> 'u) \<Rightarrow> (string \<times> json) list \<Rightarrow> (string \<times> 'u entry) list" where
  "rehydrate newUser x =
     map (\<lambda>(k, v). (k, if k = ''users''
                       then Users (map (\<lambda>(i, r). (i, newUser r)) (for_in v))
                       else Plain v)) x"

text \<open>The entry that the loop of \<^verbatim>\<open>loadMemory\<close> builds from one document on its own.\<close>

definition entry_of :: "(json \<Rightarrow> 'u) \<Rightarrow> string \<Rightarrow> json \<Rightarrow> 'u entry" where
  "entry_of newUser k v =
     (if k = ''users'' then Users (load_users newUser (for_in v) []) else Plain v)"

text \<open>The memory documents of a store, each as its sub-collection and its data.\<close>

definition memory_view :: "store_doc list \<Rightarrow> (string \<times> json) list" where
  "memory_view db = map (\<lambda>d. (sub d, data d)) (filter (\<lambda>d. doc_type d = ''memory'') db)"

text \<open>
  \<^verbatim>\<open>item[key]\<close> and \<^verbatim>\<open>===\<close>. Only a document has fields here (the elements of a
  serial store are documents); a field it lacks reads as \<^verbatim>\<open>undefined\<close>. Objects and
  arrays are equal only to themselves, and a stored element is never the caller's object.
  Numbers are the integers that a double holds exactly.
\<close>

fun field :: "json \<Rightarrow> string \<Rightarrow> json" where
  "field (JObj kvs) k = (case map_of kvs k of None \<Rightarrow> JUndefined | Some v \<Rightarrow> v)"
| "field _ k = JUndefined"

fun strict_eq :: "json \<Rightarrow> json \<Rightarrow> bool" where
  "strict_eq JUndefined JUndefined = True"
| "strict_eq JNull JNull = True"
| "strict_eq (JBool a) (JBool b) = (a = b)"
| "strict_eq (JNum a) (JNum b) = (a = b)"
| "strict_eq (JStr a) (JStr b) = (a = b)"
| "strict_eq _ _ = False"

text \<open>
  The callback of \<^verbatim>\<open>doc.data.filter\<close>:
  \<^verbatim>\<open>let match = false; for (let key in params) match = (item[key] === params[key]); return match\<close>.
\<close>

fun last_match :: "(string \<times> json) list \<Rightarrow> json \<Rightarrow> bool \<Rightarrow> bool" where
  "last_match [] item match = match"
| "last_match ((k, v) # ps) item match = last_match ps item (strict_eq (field item k) v)"

text \<open>
  The database's side of the query \<^verbatim>\<open>{ sub, data: { $elemMatch: params }, type: 'store' }\<close>:
  an element matches when it is a document each of whose fields named in \<^verbatim>\<open>params\<close>
  has the value given there, a field that is missing counting as \<^verbatim>\<open>null\<close>. The values
  compared are scalars; numbers are the integers that a double holds exactly.
\<close>

definition elem_match :: "(string \<times> json) list \<Rightarrow> json \<Rightarrow> bool" where
  "elem_match params item =
     (case item of
        JObj kvs \<Rightarrow>
          list_all (\<lambda>(k, v). field item k = v \<or> (v = JNull \<and> field item k = JUndefined)) params
      | _ \<Rightarrow> False)"

definition elements :: "store_doc \<Rightarrow> json list" where
  "elements d = (case data d of JArr items \<Rightarrow> items | _ \<Rightarrow> [])"

definition query_store ::
  "(string \<Rightarrow> string) \<Rightarrow> string \<Rightarrow> (string \<times> json) list \<Rightarrow> store_doc list \<Rightarrow>
     store_doc option" where
  "query_store toLowerCase s params db =
     find (\<lambda>d. doc_type d = ''store'' \<and> sub d = toLowerCase s \<and>
                list_ex (elem_match params) (elements d)) db"

text \<open>
  \<^verbatim>\<open>Mongo.find\<close>: \<^verbatim>\<open>undefined\<close> without a document, else the elements the callback
  keeps. Reading a property of a \<^verbatim>\<open>null\<close> element throws.
\<close>

definition nullish :: "json \<Rightarrow> bool" where
  "nullish v = (v = JNull \<or> v = JUndefined)"

definition find_mongo ::
  "(string \<Rightarrow> string) \<Rightarrow> string \<Rightarrow> (string \<times> json) list \<Rightarrow> store_doc list \<Rightarrow>
     thrown + json list option" where
  "find_mongo toLowerCase s params db =
     (case query_store toLowerCase s params db of
        None \<Rightarrow> Inr None
      | Some d \<Rightarrow>
          if params \<noteq> [] \<and> list_ex nullish (elements d) then Inl (ErrorInst ''TypeError'')
          else Inr (Some (filter (\<lambda>item. last_match params item False) (elements d))))"

text \<open>
  \<^verbatim>\<open>Mongo.findOne\<close>: the projection \<^verbatim>\<open>'data.$'\<close> keeps the first element that matched
  the query, and \<^verbatim>\<open>doc.data[0]\<close> is that element.
\<close>

definition findOne ::
  "(string \<Rightarrow> string) \<Rightarrow> string \<Rightarrow> (string \<times> json) list \<Rightarrow> store_doc list \<Rightarrow> json option" where
  "findOne toLowerCase s params db =
     (case query_store toLowerCase s params db of
        None \<Rightarrow> None
      | Some d \<Rightarrow> find (elem_match params) (elements d))"

section \<open>Concrete inputs\<close>

definition alice :: user where
  "alice = \<lparr>uid = ''u1'', uname = Some ''alice'', uroom = Some ''general''\<rparr>"

definition hello :: message where
  "hello = Text alice (units ''  hello bot '') ''m1'' None"

text \<open>A text that consists of one no-break space, U+00A0.\<close>

definition blank :: message where
  "blank = Text alice [160] ''m2'' None"

definition idle :: world where
  "idle = \<lparr>st = create None None, path = empty_path, clock = 1000, users = Map.empty,
     kept = [], sent = [], dialogues = Map.empty\<rparr>"

definition heard :: "message \<Rightarrow> world" where
  "heard m = idle\<lparr>st := create (Some m) None\<rparr>"

definition matched_world :: world where
  "matched_world = upd_st (\<lambda>s. s\<lparr>b_matched := True\<rparr>) (heard hello)"

text \<open>
  An environment with a storage adapter, an NLU adapter that finds one intent in every
  message, middleware that always completes, and branches that match every message.
\<close>

definition plain_env :: env where
  "plain_env = \<lparr>nlu_adapter = Some (\<lambda>m. NluResult (Some [(''intent'', JStr ''greet'')])),
     storage_adapter = True, message_adapter = None,
     nlu_min_length = Some 5, middlewares = (\<lambda>n. Completed),
     branch_process = (\<lambda>br mw w. Resolved () (upd_st (\<lambda>s. s\<lparr>b_matched := True\<rparr>) w)),
     addResults = JObj,
     audience = (\<lambda>s. case b_message s of None \<Rightarrow> [] | Some m \<Rightarrow> uid (message_user m)),
     global = empty_path\<rparr>"

definition catch_branch :: branch where
  "catch_branch = \<lparr>bid = ''catch'', force = False\<rparr>"

definition matched_with_act :: world where
  "matched_with_act = matched_world\<lparr>path := empty_path\<lparr>act := [catch_branch]\<rparr>\<rparr>"

definition act_stage :: thought where
  "act_stage = \<lparr>name = ''act'', validate = act_validate, action = default_action,
     middleware = Completed, branches = Some [catch_branch]\<rparr>"

text \<open>
  A listen stage with three branches; processing the second one matches and finishes
  the state.
\<close>

definition first_branch :: branch where
  "first_branch = \<lparr>bid = ''first'', force = False\<rparr>"

definition second_branch :: branch where
  "second_branch = \<lparr>bid = ''second'', force = True\<rparr>"

definition third_branch :: branch where
  "third_branch = \<lparr>bid = ''third'', force = False\<rparr>"

definition loop_env :: env where
  "loop_env = plain_env\<lparr>branch_process := (\<lambda>br mw w.
     if bid br = ''second''
     then Resolved () (upd_st (\<lambda>s. s\<lparr>b_matched := True, b_done := True\<rparr>) w)
     else Resolved () w)\<rparr>"

definition listening :: world where
  "listening = (heard hello)\<lparr>path :=
     empty_path\<lparr>listen := [first_branch, second_branch, third_branch]\<rparr>\<rparr>"

definition listen_stage :: thought where
  "listen_stage = \<lparr>name = ''listen'', validate = default_validate, action = listen_action,
     middleware = Completed, branches = Some [first_branch, second_branch, third_branch]\<rparr>"

definition after_second :: world where
  "after_second = upd_st (\<lambda>s. s\<lparr>b_matched := True, b_done := True\<rparr>) listening"

definition stamped :: world where
  "stamped = (upd_st (\<lambda>s. s\<lparr>b_processed := [''listen'' \<mapsto> 1000]\<rparr>) listening)\<lparr>clock := 2000\<rparr>"

text \<open>The same environment with a \<^verbatim>\<open>hear\<close> middleware that short-circuits.\<close>

definition deaf_env :: env where
  "deaf_env = loop_env\<lparr>middlewares := (\<lambda>n. if n = ''hear'' then ShortCircuit else Completed)\<rparr>"

definition receiving :: world where
  "receiving = upd_st (\<lambda>s. s\<lparr>b_sequence := Some ''receive''\<rparr>) listening"

text \<open>
  An audience engaged in a dialogue whose path holds one listen branch. In
  \<^verbatim>\<open>quiet_env\<close> the branch matches and its callback adds nothing; in \<^verbatim>\<open>chatty_env\<close>
  the callback adds a follow-up branch to the dialogue's fresh path.
\<close>

definition dialogue_path :: path where
  "dialogue_path = empty_path\<lparr>listen := [second_branch]\<rparr>"

definition follow_up :: path where
  "follow_up = empty_path\<lparr>listen := [third_branch]\<rparr>"

definition engaged_world :: world where
  "engaged_world = idle\<lparr>dialogues := [''u1'' \<mapsto> \<lparr>dpath = dialogue_path, previousPath = None\<rparr>]\<rparr>"

definition quiet_env :: env where
  "quiet_env = loop_env\<lparr>nlu_adapter := None\<rparr>"

definition chatty_env :: env where
  "chatty_env = quiet_env\<lparr>branch_process := (\<lambda>br mw w.
     Resolved () ((upd_st (\<lambda>s. s\<lparr>b_matched := True, b_done := True\<rparr>) w)
       \<lparr>dialogues := (dialogues w)(''u1'' \<mapsto>
          \<lparr>dpath = follow_up, previousPath = Some dialogue_path\<rparr>)\<rparr>))\<rparr>"

definition deaf_to_all :: env where
  "deaf_to_all = quiet_env\<lparr>branch_process := (\<lambda>br mw w. Resolved () w)\<rparr>"

text \<open>A reply to bob in a public room, and the same reply in bob's direct room.\<close>

definition bob :: rc_user where
  "bob = \<lparr>user_id = ''u1'', username = Some ''bob''\<rparr>"

definition reply_envelope :: rc_envelope where
  "reply_envelope = \<lparr>e_strings = Some [''hello'', ''bye''], e_user = Some bob,
     e_room_id = Some ''general'', e_message_id = None\<rparr>"

definition direct_envelope :: rc_envelope where
  "direct_envelope = reply_envelope\<lparr>e_room_id := Some ''botu1''\<rparr>"

text \<open>
  \<^verbatim>\<open>toLowerCase\<close> as it acts on ASCII text: the letters A to Z go to a to z, every
  other character stays.
\<close>

definition lower_char :: "char \<Rightarrow> char" where
  "lower_char c =
     (if 65 \<le> (of_char c :: nat) \<and> (of_char c :: nat) \<le> 90
      then char_of ((of_char c :: nat) + 32) else c)"

definition ascii_lower :: "string \<Rightarrow> string" where
  "ascii_lower s = map lower_char s"

text \<open>A serial store of two states that differ in \<^verbatim>\<open>a\<close> and agree in \<^verbatim>\<open>b\<close>.\<close>

definition state_one :: json where
  "state_one = JObj [(''a'', JNum 1), (''b'', JNum 2)]"

definition state_two :: json where
  "state_two = JObj [(''a'', JNum 9), (''b'', JNum 2)]"

definition states_db :: "store_doc list" where
  "states_db = [\<lparr>doc_type = ''store'', sub = ''states'', data = JArr [state_one, state_two]\<rparr>]"

definition both_keys :: "(string \<times> json) list" where
  "both_keys = [(''a'', JNum 1), (''b'', JNum 2)]"

text \<open>
  A memory with one user, saved to a store that still holds a document of an earlier
  memory; a memory with a key in upper case, saved to an empty store; and a store that
  holds two memory documents of one sub-collection.
\<close>

definition one_user :: "(string \<times> json) list" where
  "one_user = [(''users'', JObj [(''u1'', JObj [(''name'', JStr ''alice'')])])]"

definition stale_db :: "store_doc list" where
  "stale_db = [\<lparr>doc_type = ''memory'', sub = ''private'', data = JStr ''old''\<rparr>]"

definition upper_key :: "(string \<times> json) list" where
  "upper_key = [(''Private'', JStr ''secret'')]"

definition two_subs :: "(string \<times> json) list" where
  "two_subs = [(''users'', JObj [(''u1'', JObj [(''name'', JStr ''alice'')])]),
               (''private'', JStr ''new'')]"

definition twice_db :: "store_doc list" where
  "twice_db = [\<lparr>doc_type = ''memory'', sub = ''private'', data = JStr ''old''\<rparr>,
               \<lparr>doc_type = ''memory'', sub = ''private'', data = JStr ''older''\<rparr>]"

definition one_sub :: "(string \<times> json) list" where
  "one_sub = [(''private'', JStr ''new'')]"

text \<open>
  A listen stage whose branches were added under the ids \<^verbatim>\<open>2\<close> and \<^verbatim>\<open>1\<close>, in that
  order; processing a branch leaves the state as it is.
\<close>

definition branch_two :: branch where
  "branch_two = \<lparr>bid = ''2'', force = False\<rparr>"

definition branch_one :: branch where
  "branch_one = \<lparr>bid = ''1'', force = False\<rparr>"

definition numbered_stage :: thought where
  "numbered_stage = \<lparr>name = ''listen'', validate = default_validate, action = listen_action,
     middleware = Completed, branches = Some [branch_two, branch_one]\<rparr>"

definition after_stamp :: world where
  "after_stamp = upd_st (\<lambda>s. s\<lparr>b_processed := [''listen'' \<mapsto> 1000]\<rparr>) after_second"

section \<open>The validators of \<^verbatim>\<open>act\<close>, \<^verbatim>\<open>remember\<close> and \<^verbatim>\<open>understand\<close>\<close>

lemma process_branches_done:
  "b_done (st w) \<Longrightarrow> process_branches E mw bs w = ([], Resolved () w)"
  by (cases bs) simp_all

text \<open>
  C3. The validator of the \<^verbatim>\<open>act\<close> stage returns false when \<^verbatim>\<open>state.matched\<close> is
  true and changes nothing. Otherwise it returns true, and a message that is present is
  replaced by a catch-all that wraps it (without a message the state stays as it is).
  So the \<^verbatim>\<open>act\<close> stage of a matched state evaluates none of its branches.
\<close>

theorem act_validate_spec:
  "(b_matched (st w) \<longrightarrow> act_validate w = Resolved False w) \<and>
   (\<not> b_matched (st w) \<longrightarrow> b_message (st w) = Some m \<longrightarrow>
      act_validate w = Resolved True (upd_st (\<lambda>s. s\<lparr>b_message := Some (CatchAll m)\<rparr>) w)) \<and>
   (\<not> b_matched (st w) \<longrightarrow> b_message (st w) = None \<longrightarrow> act_validate w = Resolved True w) \<and>
   (b_matched (st w) \<longrightarrow> processes E ''act'' w = Some T \<longrightarrow>
      filter is_Evaluated (fst (thought_process E T w)) = [])"
proof -
  have stage: "filter is_Evaluated (fst (thought_process E T w)) = []"
    if m: "b_matched (st w)" and T: "processes E ''act'' w = Some T"
  proof -
    from T have v: "validate T = act_validate" and br: "branches T = Some (act (path w))"
      by (auto simp: processes_def)
    from m have "fst (attempt E T w) = []"
      by (simp add: attempt_def v br act_validate_def)
    then show ?thesis
      by (cases "attempt E T w")
         (auto simp: thought_process_def on_rejected_def on_fulfilled_def
               split: settled.splits thrown.splits prod.splits)
  qed
  show ?thesis
    using stage by (simp add: act_validate_def catchAll_def)
qed

theorem act_validate_spec_witness:
  "act_validate (heard hello) =
     Resolved True (upd_st (\<lambda>s. s\<lparr>b_message := Some (CatchAll hello)\<rparr>) (heard hello)) \<and>
   act_validate matched_with_act = Resolved False matched_with_act \<and>
   processes plain_env ''act'' matched_with_act = Some act_stage \<and>
   filter is_Evaluated (fst (thought_process plain_env act_stage matched_with_act)) = []"
proof -
  have T: "processes plain_env ''act'' matched_with_act = Some act_stage"
    by (simp add: processes_def act_stage_def matched_with_act_def plain_env_def empty_path_def)
  have m: "b_matched (st matched_with_act)"
    by (simp add: matched_with_act_def matched_world_def upd_st_def)
  have n: "\<not> b_matched (st (heard hello))" "b_message (st (heard hello)) = Some hello"
    by (simp_all add: heard_def create_def)
  show ?thesis
    using act_validate_spec [of matched_with_act hello plain_env act_stage]
      act_validate_spec [of "heard hello" hello plain_env act_stage] T m n
    by simp
qed

lemma dispatchedEnvelope_iff:
  "dispatchedEnvelope s \<noteq> None \<longleftrightarrow>
     (\<exists>es e. b_envelopes s = Some es \<and> e \<in> set es \<and> responded e \<noteq> None)"
  by (cases "b_envelopes s")
     (auto simp: dispatchedEnvelope_def find_None_iff simp del: not_None_eq)

text \<open>
  C2. Where a matched state carries the message whose user the validator reads, the
  validator of the \<^verbatim>\<open>remember\<close> stage returns true if and only if a storage adapter is
  configured and either \<^verbatim>\<open>state.matched\<close> is true or an envelope of the outbound queue
  was dispatched. It always returns, and when \<^verbatim>\<open>state.matched\<close> is true the user
  directory holds the message's user afterwards, whether or not there is an adapter.
\<close>

theorem remember_validate_spec:
  assumes "b_matched (st w) \<Longrightarrow> b_message (st w) = Some m"
  shows "((\<exists>w'. remember_validate E w = Resolved True w') \<longleftrightarrow>
            storage_adapter E \<and>
            (b_matched (st w) \<or>
             (\<exists>es e. b_envelopes (st w) = Some es \<and> e \<in> set es \<and> responded e \<noteq> None))) \<and>
         (\<exists>r. remember_validate E w =
            Resolved r (if b_matched (st w) then byId (uid (message_user m)) (message_user m) w
                        else w))"
proof (cases "b_matched (st w)")
  case True
  with assms have m: "b_message (st w) = Some m" by simp
  have "b_matched (st (byId (uid (message_user m)) (message_user m) w))"
    using True by (simp add: byId_def)
  with True m show ?thesis
    by (auto simp: remember_validate_def remember_check_def)
next
  case False
  then show ?thesis
    using dispatchedEnvelope_iff [of "st w"]
    by (auto simp: remember_validate_def remember_check_def)
qed

theorem remember_validate_spec_witness:
  "b_message (st matched_world) = Some hello \<and>
   remember_validate plain_env matched_world = Resolved True (byId ''u1'' alice matched_world) \<and>
   remember_validate (plain_env\<lparr>storage_adapter := False\<rparr>) matched_world =
     Resolved False (byId ''u1'' alice matched_world)"
  using remember_validate_spec [of matched_world hello plain_env]
    remember_validate_spec [of matched_world hello "plain_env\<lparr>storage_adapter := False\<rparr>"]
  by (auto simp: matched_world_def heard_def idle_def create_def upd_st_def hello_def
      plain_env_def alice_def)

lemma min_length_ok:
  "(case ml of None \<Rightarrow> False | Some m \<Rightarrow> m \<noteq> 0 \<and> int n < m) \<longleftrightarrow>
   \<not> (\<forall>m. ml = Some m \<longrightarrow> m \<le> int n)"
  by (cases ml) auto

text \<open>
  C4. The validator of the \<^verbatim>\<open>understand\<close> stage returns true if and only if an NLU
  adapter exists, the message is a text message, its trimmed text is not empty (a text
  of Unicode white space only is empty once trimmed), the
  trimmed text is not shorter than the \<^verbatim>\<open>nlu-min-length\<close> setting when that is set, and
  the adapter returned a result that is not empty. When it returns true, the state's
  message is that text message with the parsed result attached as its \<^verbatim>\<open>nlu\<close>, and
  nothing else changed.
\<close>

theorem understand_validate_spec:
  "((\<exists>w'. understand_validate E w = Resolved True w') \<longleftrightarrow>
      (\<exists>process u t i n raw.
         nlu_adapter E = Some process \<and>
         b_message (st w) = Some (Text u t i n) \<and>
         trim t \<noteq> [] \<and>
         (\<forall>m. nlu_min_length E = Some m \<longrightarrow> m \<le> int (length (trim t))) \<and>
         process (Text u t i n) = NluResult (Some raw) \<and> raw \<noteq> [])) \<and>
   (\<forall>w'. understand_validate E w = Resolved True w' \<longrightarrow>
      (\<exists>process u t i n raw.
         nlu_adapter E = Some process \<and>
         b_message (st w) = Some (Text u t i n) \<and>
         process (Text u t i n) = NluResult (Some raw) \<and>
         w' = upd_st (\<lambda>s. s\<lparr>b_message := Some (Text u t i (Some (addResults E raw)))\<rparr>) w))"
  unfolding understand_validate_def min_length_ok
  by (auto split: option.splits message.splits nlu_outcome.splits if_splits)

lemma trim_hello: "trim (units ''  hello bot '') = units ''hello bot''"
  by (simp add: units_def trim_def is_space_def)

lemma trim_blank: "trim [160] = []"
  by (simp add: trim_def is_space_def)

theorem understand_validate_spec_witness:
  "understand_validate plain_env (heard hello) =
     Resolved True (upd_st (\<lambda>s. s\<lparr>b_message :=
        Some (Text alice (units ''  hello bot '') ''m1''
                (Some (JObj [(''intent'', JStr ''greet'')])))\<rparr>)
        (heard hello)) \<and>
   understand_validate (plain_env\<lparr>nlu_min_length := Some 10\<rparr>) (heard hello) =
     Resolved False (heard hello) \<and>
   understand_validate plain_env (heard blank) = Resolved False (heard blank)"
proof -
  have t: "trim (units ''  hello bot '') \<noteq> []" "length (trim (units ''  hello bot '')) = 9"
    by (simp_all add: trim_hello) (simp_all add: units_def)
  have m: "b_message (st (heard hello)) = Some (Text alice (units ''  hello bot '') ''m1'' None)"
    "b_message (st (heard blank)) = Some (Text alice [160] ''m2'' None)"
    by (simp_all add: heard_def create_def hello_def blank_def)
  have a: "understand_validate plain_env (heard hello) =
     Resolved True (upd_st (\<lambda>s. s\<lparr>b_message :=
        Some (Text alice (units ''  hello bot '') ''m1''
                (Some (JObj [(''intent'', JStr ''greet'')])))\<rparr>)
        (heard hello))"
    by (simp add: understand_validate_def m t plain_env_def)
  have b: "understand_validate (plain_env\<lparr>nlu_min_length := Some 10\<rparr>) (heard hello) =
     Resolved False (heard hello)"
    by (simp add: understand_validate_def m t plain_env_def)
  have c: "understand_validate plain_env (heard blank) = Resolved False (heard blank)"
    by (simp add: understand_validate_def m trim_blank plain_env_def)
  show ?thesis
    using understand_validate_spec [of plain_env "heard hello"] a b c
    by - (intro conjI; assumption)
qed

section \<open>Stages and sequences\<close>

lemma process_branches_trace:
  "process_branches E mw bs w = (evs, r) \<Longrightarrow>
     (\<exists>n\<le>length bs.
        length evs = n \<and>
        map ev_id evs = take n (map bid bs) \<and>
        (\<forall>e\<in>set evs. is_Evaluated e \<and> \<not> b_done (st (ev_before e))) \<and>
        (0 < n \<longrightarrow> ev_before (evs ! 0) = w) \<and>
        (\<forall>i. Suc i < n \<longrightarrow>
           branch_process E (bs ! i) mw (ev_before (evs ! i)) = Resolved () (ev_before (evs ! Suc i))) \<and>
        (\<forall>w2. r = Resolved () w2 \<longrightarrow>
           (0 < n \<longrightarrow> branch_process E (bs ! (n - 1)) mw (ev_before (evs ! (n - 1))) = Resolved () w2) \<and>
           (n = 0 \<longrightarrow> w2 = w) \<and>
           (n < length bs \<longrightarrow> b_done (st w2))))"
proof (induction bs arbitrary: w evs r)
  case Nil
  then show ?case by auto
next
  case (Cons br brs)
  show ?case
  proof (cases "b_done (st w)")
    case True
    with Cons.prems show ?thesis by auto
  next
    case nd: False
    show ?thesis
    proof (cases "branch_process E br mw w")
      case (Resolved u w')
      obtain evs' r' where rec: "process_branches E mw brs w' = (evs', r')"
        by (cases "process_branches E mw brs w'")
      with Cons.prems nd Resolved have evs: "evs = Evaluated (bid br) w # evs'" and r: "r = r'"
        by auto
      from Cons.IH [OF rec] obtain n where n: "n \<le> length brs" "length evs' = n"
        "map ev_id evs' = take n (map bid brs)"
        "\<forall>e\<in>set evs'. is_Evaluated e \<and> \<not> b_done (st (ev_before e))"
        "0 < n \<longrightarrow> ev_before (evs' ! 0) = w'"
        "\<forall>i. Suc i < n \<longrightarrow>
           branch_process E (brs ! i) mw (ev_before (evs' ! i)) = Resolved () (ev_before (evs' ! Suc i))"
        "\<forall>w2. r' = Resolved () w2 \<longrightarrow>
           (0 < n \<longrightarrow> branch_process E (brs ! (n - 1)) mw (ev_before (evs' ! (n - 1))) = Resolved () w2) \<and>
           (n = 0 \<longrightarrow> w2 = w') \<and>
           (n < length brs \<longrightarrow> b_done (st w2))"
        by blast
      have chain: "branch_process E ((br # brs) ! i) mw (ev_before (evs ! i)) =
                     Resolved () (ev_before (evs ! Suc i))" if "Suc i < Suc n" for i
      proof (cases i)
        case 0
        with that n(5) Resolved evs show ?thesis by simp
      next
        case (Suc j)
        with that n(6) evs show ?thesis by simp
      qed
      have last: "(0 < Suc n \<longrightarrow> branch_process E ((br # brs) ! (Suc n - 1)) mw
                      (ev_before (evs ! (Suc n - 1))) = Resolved () w2) \<and>
                  (Suc n = 0 \<longrightarrow> w2 = w) \<and>
                  (Suc n < length (br # brs) \<longrightarrow> b_done (st w2))" if "r = Resolved () w2" for w2
      proof (cases n)
        case 0
        with that n(7) r Resolved evs show ?thesis by auto
      next
        case (Suc k)
        with that n(7) r evs show ?thesis by auto
      qed
      show ?thesis
        apply (rule exI [of _ "Suc n"])
        using n(1-4) nd evs chain last by auto
    next
      case (Rejected e w')
      with Cons.prems nd show ?thesis
        by (auto intro!: exI [of _ "Suc 0"])
    next
      case (Pending w')
      with Cons.prems nd show ?thesis
        by (auto intro!: exI [of _ "Suc 0"])
    qed
  qed
qed


lemma stamp_sets: "b_processed (st (stamp n w)) n \<noteq> None"
  by (auto simp: stamp_def falsy_def upd_st_def)

lemma for_in_plain:
  "\<forall>br\<in>set bs. array_index (bid br) = None \<Longrightarrow> for_in_branches bs = bs"
  by (simp add: for_in_branches_def)

lemma for_in_mset: "mset (for_in_branches bs) = mset bs"
  by (simp add: for_in_branches_def)

lemma attempt_loop:
  assumes "branches T = Some bs" and "bs \<noteq> []" and "\<not> b_done (st w)"
    and "validate T w = Resolved True w1"
    and "process_branches E (middleware T) (for_in_branches bs) w1 = (evs, Resolved () w2)"
  shows "attempt E T w =
           (evs, if b_matched (st w2) then Resolved () w2 else Rejected Nullish w2)"
  using assms by (simp add: attempt_def)

text \<open>
  C6, as amended. Take a stage with a non-empty branch collection whose iteration is
  reached (the state is neither exited nor done when the stage starts, and the validator
  returns true) and whose branches all resolve. It hands its branches to \<^verbatim>\<open>process\<close> in
  the order in which \<^verbatim>\<open>for...in\<close> visits the collection: ids that are array indices
  first, in ascending numeric order, then the other ids in insertion order; so in
  insertion order when no id is an array index. The branches evaluated are the first
  \<open>n\<close> in that order, each one in the world its predecessor left and with
  \<^verbatim>\<open>state.done\<close> false, and when the iteration stops before the end \<^verbatim>\<open>state.done\<close> is
  true. If \<^verbatim>\<open>state.matched\<close> is true after the iteration, \<^verbatim>\<open>processed[name]\<close> gets the
  time of the clock unless it holds a timestamp already, \<^verbatim>\<open>action(true)\<close> is called on
  that state and its outcome is the outcome of the stage (an \<^verbatim>\<open>Error\<close> it rejects with is
  thrown on, anything else it rejects with leads to \<^verbatim>\<open>action(false)\<close>). Otherwise
  \<^verbatim>\<open>action(false)\<close> is called on the state as the iteration left it, without a
  timestamp. So \<^verbatim>\<open>action(true)\<close> is called if and only if \<^verbatim>\<open>state.matched\<close> is true
  after the iteration.
\<close>

theorem thought_process_branches:
  assumes "branches T = Some bs" and "bs \<noteq> []"
    and "\<not> b_exit (st w)" and "\<not> b_done (st w)"
    and "validate T w = Resolved True w1"
    and "process_branches E (middleware T) (for_in_branches bs) w1 = (evs, Resolved () w2)"
    and "ws = (if b_processed (st w2) (name T) = None \<or> b_processed (st w2) (name T) = Some 0
               then w2\<lparr>st := (st w2)\<lparr>b_processed := (b_processed (st w2))(name T \<mapsto> clock w2)\<rparr>\<rparr>
               else w2)"
  shows "(\<exists>n\<le>length bs.
            length evs = n \<and>
            map ev_id evs = take n (map bid (for_in_branches bs)) \<and>
            (\<forall>e\<in>set evs. is_Evaluated e \<and> \<not> b_done (st (ev_before e))) \<and>
            (0 < n \<longrightarrow> ev_before (evs ! 0) = w1) \<and>
            (\<forall>i. Suc i < n \<longrightarrow>
               branch_process E (for_in_branches bs ! i) (middleware T) (ev_before (evs ! i)) =
                 Resolved () (ev_before (evs ! Suc i))) \<and>
            (0 < n \<longrightarrow>
               branch_process E (for_in_branches bs ! (n - 1)) (middleware T)
                 (ev_before (evs ! (n - 1))) = Resolved () w2) \<and>
            (n < length bs \<longrightarrow> b_done (st w2))) \<and>
         mset (for_in_branches bs) = mset bs \<and>
         ((\<forall>br\<in>set bs. array_index (bid br) = None) \<longrightarrow> for_in_branches bs = bs) \<and>
         (b_matched (st w2) \<longrightarrow>
            b_processed (st ws) (name T) \<noteq> None \<and>
            thought_process E T w =
              (case action T True ws of
                 Resolved u w3 \<Rightarrow> (evs @ [Acted (name T) True ws], Resolved () w3)
               | Pending w3 \<Rightarrow> (evs @ [Acted (name T) True ws], Pending w3)
               | Rejected err w3 \<Rightarrow>
                   (case err of
                      ErrorInst m \<Rightarrow> (evs @ [Acted (name T) True ws], Rejected err w3)
                    | _ \<Rightarrow> (evs @ [Acted (name T) True ws, Acted (name T) False w3],
                            action T False w3)))) \<and>
         (\<not> b_matched (st w2) \<longrightarrow>
            thought_process E T w = (evs @ [Acted (name T) False w2], action T False w2)) \<and>
         ((\<exists>wa. Acted (name T) True wa \<in> set (fst (thought_process E T w))) \<longleftrightarrow>
            b_matched (st w2))"
proof -
  have len: "length (for_in_branches bs) = length bs"
    using for_in_mset [of bs] by (metis size_mset)
  from process_branches_trace [OF assms(6)] len
  have loop: "\<exists>n\<le>length bs.
            length evs = n \<and>
            map ev_id evs = take n (map bid (for_in_branches bs)) \<and>
            (\<forall>e\<in>set evs. is_Evaluated e \<and> \<not> b_done (st (ev_before e))) \<and>
            (0 < n \<longrightarrow> ev_before (evs ! 0) = w1) \<and>
            (\<forall>i. Suc i < n \<longrightarrow>
               branch_process E (for_in_branches bs ! i) (middleware T) (ev_before (evs ! i)) =
                 Resolved () (ev_before (evs ! Suc i))) \<and>
            (0 < n \<longrightarrow>
               branch_process E (for_in_branches bs ! (n - 1)) (middleware T)
                 (ev_before (evs ! (n - 1))) = Resolved () w2) \<and>
            (n < length bs \<longrightarrow> b_done (st w2))"
    by simp
  then have only_eval: "\<forall>e\<in>set evs. is_Evaluated e"
    by blast
  have ws: "ws = stamp (name T) w2"
    unfolding assms(7) by (simp add: stamp_def falsy_def upd_st_def)
  note att = attempt_loop [OF assms(1,2,4,5,6)]
  have yes: "thought_process E T w =
              (case action T True ws of
                 Resolved u w3 \<Rightarrow> (evs @ [Acted (name T) True ws], Resolved () w3)
               | Pending w3 \<Rightarrow> (evs @ [Acted (name T) True ws], Pending w3)
               | Rejected err w3 \<Rightarrow>
                   (case err of
                      ErrorInst m \<Rightarrow> (evs @ [Acted (name T) True ws], Rejected err w3)
                    | _ \<Rightarrow> (evs @ [Acted (name T) True ws, Acted (name T) False w3],
                            action T False w3)))"
    if "b_matched (st w2)"
    using that assms(3) att unfolding ws
    by (auto simp: thought_process_def on_fulfilled_def on_rejected_def
             split: settled.splits thrown.splits)
  have no: "thought_process E T w = (evs @ [Acted (name T) False w2], action T False w2)"
    if "\<not> b_matched (st w2)"
    using that assms(3) att by (simp add: thought_process_def on_rejected_def)
  have iff: "(\<exists>wa. Acted (name T) True wa \<in> set (fst (thought_process E T w))) \<longleftrightarrow>
            b_matched (st w2)"
  proof (cases "b_matched (st w2)")
    case True
    with yes show ?thesis
      by (auto split: settled.splits thrown.splits)
  next
    case False
    with no only_eval show ?thesis by auto
  qed
  have stamped: "b_processed (st ws) (name T) \<noteq> None"
    unfolding ws by (rule stamp_sets)
  from loop yes no iff stamped for_in_mset [of bs] for_in_plain [of bs] show ?thesis
    by blast
qed

lemma process_branches_keeps:
  assumes "\<And>br u. b_processed (st (world_of (branch_process E br mw u))) n = b_processed (st u) n"
  shows "b_processed (st (world_of (snd (process_branches E mw bs w)))) n = b_processed (st w) n"
proof (induction bs arbitrary: w)
  case Nil
  show ?case by simp
next
  case (Cons br brs)
  show ?case
  proof (cases "branch_process E br mw w")
    case (Resolved u w')
    with assms [of br w] have "b_processed (st w') n = b_processed (st w) n" by simp
    with Resolved Cons.IH [of w'] show ?thesis
      by (simp add: case_prod_beta)
  next
    case (Rejected e w')
    with assms [of br w] show ?thesis by simp
  next
    case (Pending w')
    with assms [of br w] show ?thesis by simp
  qed
qed

lemma inner_catch_world [simp]: "world_of (inner_catch e w) = w"
  by (cases e) (simp_all add: inner_catch_def)

lemma attempt_keeps:
  assumes v: "\<And>u. b_processed (st (world_of (validate T u))) n = b_processed (st u) n"
    and m: "\<And>u. b_processed (st (mw_world (middleware T u))) n = b_processed (st u) n"
    and b: "\<And>br u. b_processed (st (world_of (branch_process E br (middleware T) u))) n =
              b_processed (st u) n"
  shows "b_processed (st (world_of (snd (attempt E T w)))) n = b_processed (st w) n"
proof (cases "validate T w")
  case (Resolved valid w1)
  with v [of w] have w1: "b_processed (st w1) n = b_processed (st w) n" by simp
  show ?thesis
  proof (cases "branches T")
    case None
    from m [of w1] w1 have "b_processed (st (mw_world (middleware T w1))) n = b_processed (st w) n"
      by simp
    with None Resolved w1 show ?thesis
      by (cases "middleware T w1") (simp_all add: attempt_def)
  next
    case (Some bs)
    from process_branches_keeps [of E "middleware T" n "for_in_branches bs" w1, OF b] w1
    have "b_processed (st (world_of (snd (process_branches E (middleware T)
            (for_in_branches bs) w1)))) n = b_processed (st w) n"
      by simp
    with Some Resolved w1 show ?thesis
      by (cases "process_branches E (middleware T) (for_in_branches bs) w1")
         (auto simp: attempt_def split: settled.splits)
  qed
next
  case (Rejected e w1)
  with v [of w] show ?thesis
    by (auto simp: attempt_def split: option.splits)
next
  case (Pending w1)
  with v [of w] show ?thesis
    by (auto simp: attempt_def split: option.splits)
qed

lemma stamp_keeps: "b_processed (st w) n = Some t \<Longrightarrow> 0 < t \<Longrightarrow> stamp n w = w"
  by (simp add: stamp_def falsy_def)

lemma on_rejected_keeps:
  assumes "\<And>s u. b_processed (st (world_of (action T s u))) n = b_processed (st u) n"
  shows "b_processed (st (world_of (snd (on_rejected T e w)))) n = b_processed (st w) n"
  using assms [of False w] by (cases e) (simp_all add: on_rejected_def)

lemma on_fulfilled_keeps:
  assumes a: "\<And>s u. b_processed (st (world_of (action T s u))) (name T) = b_processed (st u) (name T)"
    and t: "b_processed (st w) (name T) = Some t" "0 < t"
  shows "b_processed (st (world_of (snd (on_fulfilled T w)))) (name T) = Some t"
proof -
  have s: "stamp (name T) w = w" using t by (rule stamp_keeps)
  show ?thesis
  proof (cases "action T True w")
    case (Rejected e w2)
    with a [of True w] t have "b_processed (st w2) (name T) = Some t" by simp
    with on_rejected_keeps [of T "name T" e w2, OF a] Rejected s show ?thesis
      by (simp add: on_fulfilled_def case_prod_beta)
  next
    case (Resolved u w2)
    with a [of True w] t s show ?thesis by (simp add: on_fulfilled_def)
  next
    case (Pending w2)
    with a [of True w] t s show ?thesis by (simp add: on_fulfilled_def)
  qed
qed

text \<open>
  C10. Once \<^verbatim>\<open>processed[name]\<close> holds the timestamp of a successful pass (a time after
  the epoch), a later pass of a stage of the same name over the same state leaves that
  timestamp as it is, whatever the clock says by then, as long as the callbacks of the
  stage (validator, middleware, branches, action) do not write the entry themselves.
\<close>

theorem processed_written_once:
  assumes t: "b_processed (st w) (name T) = Some t" "0 < t"
    and v: "\<And>u. b_processed (st (world_of (validate T u))) (name T) = b_processed (st u) (name T)"
    and m: "\<And>u. b_processed (st (mw_world (middleware T u))) (name T) = b_processed (st u) (name T)"
    and b: "\<And>br u. b_processed (st (world_of (branch_process E br (middleware T) u))) (name T) =
              b_processed (st u) (name T)"
    and a: "\<And>s u. b_processed (st (world_of (action T s u))) (name T) = b_processed (st u) (name T)"
  shows "b_processed (st (world_of (snd (thought_process E T w)))) (name T) = Some t"
proof (cases "b_exit (st w)")
  case True
  with t show ?thesis by (simp add: thought_process_def)
next
  case False
  obtain evs r where att: "attempt E T w = (evs, r)" by (cases "attempt E T w")
  from attempt_keeps [of T "name T" E w, OF v m b] att t
  have r: "b_processed (st (world_of r)) (name T) = Some t" by simp
  show ?thesis
  proof (cases r)
    case (Resolved u w1)
    with r on_fulfilled_keeps [of T w1 t, OF a] t(2) False att show ?thesis
      by (simp add: thought_process_def case_prod_beta)
  next
    case (Rejected e w1)
    with r on_rejected_keeps [of T "name T" e w1, OF a] False att show ?thesis
      by (simp add: thought_process_def case_prod_beta)
  next
    case (Pending w1)
    with r False att show ?thesis by (simp add: thought_process_def)
  qed
qed


lemma thought_process_exit: "b_exit (st u) \<Longrightarrow> thought_process E T u = ([], Resolved () u)"
  by (simp add: thought_process_def)

lemma thought_process_skip:
  "branches T = Some bs \<Longrightarrow> b_done (st u) \<Longrightarrow> \<not> b_exit (st u) \<Longrightarrow>
     thought_process E T u = ([Acted (name T) False u], action T False u)"
  by (simp add: thought_process_def attempt_def on_rejected_def)

lemma process_branches_events:
  "process_branches E mw bs w = (evs, r) \<Longrightarrow> e \<in> set evs \<Longrightarrow> is_Evaluated e"
  using process_branches_trace [of E mw bs w evs r] by blast

lemma attempt_events:
  "e \<in> set (fst (attempt E T u)) \<Longrightarrow> is_Evaluated e"
  by (cases "branches T")
     (auto simp: attempt_def dest: process_branches_events
           split: settled.splits mw_result.splits if_splits prod.splits)

lemma attempt_no_branches:
  "branches T = None \<Longrightarrow> fst (attempt E T u) = []"
  by (auto simp: attempt_def split: settled.splits mw_result.splits)

lemma settle_events:
  "e \<in> set (fst (on_rejected T err u)) \<Longrightarrow> \<exists>s wa. e = Acted (name T) s wa"
  "e \<in> set (fst (on_fulfilled T u)) \<Longrightarrow> \<exists>s wa. e = Acted (name T) s wa"
  by (auto simp: on_rejected_def on_fulfilled_def split: thrown.splits settled.splits prod.splits)

lemma thought_process_events:
  assumes "e \<in> set (fst (thought_process E T u))"
  shows "is_Evaluated e \<or> (\<exists>s wa. e = Acted (name T) s wa)"
proof (cases "b_exit (st u)")
  case True
  with assms show ?thesis by (simp add: thought_process_def)
next
  case False
  obtain evs r where att: "attempt E T u = (evs, r)" by (cases "attempt E T u")
  with attempt_events [of _ E T u] have ev: "\<forall>e\<in>set evs. is_Evaluated e" by simp
  show ?thesis
  proof (cases r)
    case (Resolved x w1)
    with assms False att ev settle_events(2) [of e T w1] show ?thesis
      by (auto simp: thought_process_def case_prod_beta)
  next
    case (Rejected err w1)
    with assms False att ev settle_events(1) [of e T err w1] show ?thesis
      by (auto simp: thought_process_def case_prod_beta)
  next
    case (Pending w1)
    with assms False att ev show ?thesis
      by (auto simp: thought_process_def)
  qed
qed

lemma no_branches_no_eval:
  assumes "branches T = None"
  shows "filter is_Evaluated (fst (thought_process E T u)) = []"
proof (cases "b_exit (st u)")
  case True
  then show ?thesis by (simp add: thought_process_def)
next
  case False
  obtain evs r where att: "attempt E T u = (evs, r)" by (cases "attempt E T u")
  with attempt_no_branches [OF assms, of E u] have evs: "evs = []" by simp
  have "\<not> is_Evaluated e" if "e \<in> set (fst (on_rejected T err w1))" for e err w1
    using settle_events(1) [OF that] by auto
  moreover have "\<not> is_Evaluated e" if "e \<in> set (fst (on_fulfilled T w1))" for e w1
    using settle_events(2) [OF that] by auto
  ultimately show ?thesis
    using False att evs
    by (cases r) (auto simp: thought_process_def case_prod_beta filter_empty_conv)
qed

lemma processes_name: "processes E n u = Some T \<Longrightarrow> name T = n"
  by (auto simp: processes_def split: if_splits)

lemma run_acted: "Acted n s wa \<in> set (fst (run E ns u)) \<Longrightarrow> n \<in> set ns"
proof (induction ns arbitrary: u)
  case Nil
  then show ?case by simp
next
  case (Cons k ks)
  show ?case
  proof (cases "processes E k u")
    case None
    with Cons.prems show ?thesis by simp
  next
    case (Some T)
    obtain evs r where tp: "thought_process E T u = (evs, r)"
      by (cases "thought_process E T u")
    have here: "n = k" if "Acted n s wa \<in> set evs"
      using thought_process_events [of "Acted n s wa" E T u] that tp processes_name [OF Some]
      by auto
    show ?thesis
    proof (cases r)
      case (Resolved x w1)
      with Cons.prems Some tp have "Acted n s wa \<in> set evs \<or> Acted n s wa \<in> set (fst (run E ks w1))"
        by (auto simp: case_prod_beta)
      with here Cons.IH [of w1] show ?thesis by auto
    next
      case (Rejected err w1)
      with Cons.prems Some tp here show ?thesis by auto
    next
      case (Pending w1)
      with Cons.prems Some tp here show ?thesis by auto
    qed
  qed
qed

lemma skip_stage:
  assumes "processes E n u = Some T" and "n \<in> {''listen'', ''understand'', ''serve'', ''act''}"
    and "b_done (st u)"
  shows "thought_process E T u = (if b_exit (st u) then [] else [Acted n False u], Resolved () u)"
proof -
  from assms(1,2) obtain bs where bs: "branches T = Some bs"
    and a: "action T False u = Resolved () u" and nm: "name T = n"
    by (auto simp: processes_def listen_action_def default_action_def split: if_splits)
  show ?thesis
    using thought_process_exit [of u E T] thought_process_skip [OF bs assms(3), of E] a nm
    by auto
qed

lemma run_after_done:
  assumes "b_done (st u)" and "set ns \<subseteq> {''listen'', ''understand'', ''serve'', ''act''}"
  shows "filter is_Evaluated (fst (run E (ns @ [''remember'']) u)) = []"
  using assms(2)
proof (induction ns)
  case Nil
  obtain T where T: "processes E ''remember'' u = Some T" and b: "branches T = None"
    by (simp add: processes_def)
  from no_branches_no_eval [OF b, of E u] T show ?case
    by (cases "thought_process E T u") (auto split: settled.splits)
next
  case (Cons k ks)
  then have k: "k \<in> {''listen'', ''understand'', ''serve'', ''act''}" by simp
  then obtain T where T: "processes E k u = Some T"
    by (auto simp: processes_def)
  from skip_stage [OF T k assms(1)] T Cons show ?case
    by (auto simp: case_prod_beta)
qed

lemma hear_failed:
  assumes T: "processes E ''hear'' w = Some T"
    and f: "Acted ''hear'' False wa \<in> set (fst (thought_process E T w))"
  shows "\<exists>u. snd (thought_process E T w) = Resolved () u \<and> b_done (st u)"
proof -
  from T have v: "validate T = default_validate" and a: "action T = hear_action"
    and b: "branches T = None" and n: "name T = ''hear''"
    by (auto simp: processes_def)
  from f have ne: "\<not> b_exit (st w)"
    by (auto simp: thought_process_def)
  have done_after: "\<exists>u. hear_action False x = Resolved () u \<and> b_done (st u)" for x
    by (simp add: hear_action_def upd_st_def finish_def)
  have no_true: "hear_action True x = Resolved () x" for x
    by (simp add: hear_action_def)
  obtain evs r where att: "attempt E T w = (evs, r)" by (cases "attempt E T w")
  show ?thesis
  proof (cases r)
    case (Resolved x w1)
    with f ne att a n no_true [of "stamp ''hear'' w1"] show ?thesis
      by (auto simp: thought_process_def on_fulfilled_def dest: attempt_events [of _ E T w, simplified att, simplified])
  next
    case (Rejected err w1)
    with f ne att a n done_after [of w1] show ?thesis
      by (cases err)
         (auto simp: thought_process_def on_rejected_def dest: attempt_events [of _ E T w, simplified att, simplified])
  next
    case (Pending w1)
    with f ne att show ?thesis
      by (auto simp: thought_process_def dest: attempt_events [of _ E T w, simplified att, simplified])
  qed
qed


lemma run_hear_failed:
  assumes f: "Acted ''hear'' False wa \<in> set (fst (run E (''hear'' # ns @ [''remember'']) w))"
    and ns: "set ns \<subseteq> {''listen'', ''understand'', ''serve'', ''act''}"
  shows "filter is_Evaluated (fst (run E (''hear'' # ns @ [''remember'']) w)) = []"
proof -
  obtain T where T: "processes E ''hear'' w = Some T" and b: "branches T = None"
    by (simp add: processes_def)
  obtain evs r where tp: "thought_process E T w = (evs, r)"
    by (cases "thought_process E T w")
  from no_branches_no_eval [OF b, of E w] tp have evs: "filter is_Evaluated evs = []"
    by simp
  show ?thesis
  proof (cases r)
    case (Resolved x u)
    from ns have "''hear'' \<notin> set (ns @ [''remember''])" by auto
    with run_acted [of "''hear''" False wa E "ns @ [''remember'']" u]
    have "Acted ''hear'' False wa \<notin> set (fst (run E (ns @ [''remember'']) u))" by blast
    with f T tp Resolved have "Acted ''hear'' False wa \<in> set (fst (thought_process E T w))"
      by (auto simp: case_prod_beta)
    from hear_failed [OF T this] tp Resolved have "b_done (st u)" by simp
    from run_after_done [OF this ns, of E] T tp Resolved evs show ?thesis
      by (simp add: case_prod_beta)
  next
    case (Rejected err u)
    with T tp evs show ?thesis by simp
  next
    case (Pending u)
    with T tp evs show ?thesis by simp
  qed
qed

text \<open>
  C5. The action of the \<^verbatim>\<open>hear\<close> stage, called with false, finishes the state, so
  \<^verbatim>\<open>state.done\<close> is true; a stage that has branches evaluates none of them when it
  starts with \<^verbatim>\<open>state.done\<close> true; and in a \<^verbatim>\<open>receive\<close> run (and in a \<^verbatim>\<open>serve\<close>
  run) in which the action of \<^verbatim>\<open>hear\<close> was called with false, no branch is evaluated
  at all.
\<close>

theorem hear_failure_stops_branches:
  "(\<exists>u'. hear_action False u = Resolved () u' \<and> b_done (st u')) \<and>
   (branches T = Some bs \<longrightarrow> b_done (st u) \<longrightarrow>
      filter is_Evaluated (fst (thought_process E T u)) = []) \<and>
   ((\<exists>wa. Acted ''hear'' False wa \<in> set (fst (start E ''receive'' w))) \<longrightarrow>
      filter is_Evaluated (fst (start E ''receive'' w)) = []) \<and>
   ((\<exists>wa. Acted ''hear'' False wa \<in> set (fst (start E ''serve'' w))) \<longrightarrow>
      filter is_Evaluated (fst (start E ''serve'' w)) = [])"
proof -
  have a: "\<exists>u'. hear_action False u = Resolved () u' \<and> b_done (st u')"
    by (simp add: hear_action_def upd_st_def finish_def)
  have b: "filter is_Evaluated (fst (thought_process E T u)) = []"
    if "branches T = Some bs" "b_done (st u)"
    using thought_process_exit [of u E T] thought_process_skip [OF that, of E]
    by (cases "b_exit (st u)") simp_all
  have c: "filter is_Evaluated (fst (start E ''receive'' w)) = []"
    if f: "\<exists>wa. Acted ''hear'' False wa \<in> set (fst (start E ''receive'' w))"
  proof -
    obtain w0 where
      eq: "start E ''receive'' w =
             run E (''hear'' # [''listen'', ''understand'', ''act''] @ [''remember'']) w0"
      by (simp add: start_def sequence_def del: run.simps)
    have sub: "set [''listen'', ''understand'', ''act''] \<subseteq>
                 {''listen'', ''understand'', ''serve'', ''act''}"
      by simp
    from f obtain wa where "Acted ''hear'' False wa \<in> set (fst (start E ''receive'' w))" ..
    then show ?thesis
      unfolding eq by (rule run_hear_failed [OF _ sub])
  qed
  have d: "filter is_Evaluated (fst (start E ''serve'' w)) = []"
    if f: "\<exists>wa. Acted ''hear'' False wa \<in> set (fst (start E ''serve'' w))"
  proof -
    obtain w0 where
      eq: "start E ''serve'' w = run E (''hear'' # [''serve'', ''act''] @ [''remember'']) w0"
      by (simp add: start_def sequence_def del: run.simps)
    have sub: "set [''serve'', ''act''] \<subseteq> {''listen'', ''understand'', ''serve'', ''act''}"
      by simp
    from f obtain wa where "Acted ''hear'' False wa \<in> set (fst (start E ''serve'' w))" ..
    then show ?thesis
      unfolding eq by (rule run_hear_failed [OF _ sub])
  qed
  from a b c d show ?thesis by blast
qed

section \<open>Runs at concrete inputs\<close>

lemma deaf_run:
  "fst (start deaf_env ''receive'' listening) =
     [Acted ''hear'' False receiving,
      Acted ''listen'' False (upd_st finish receiving),
      Acted ''understand'' False (upd_st finish receiving),
      Acted ''act'' False (upd_st finish receiving),
      Acted ''remember'' False (upd_st finish receiving)]"
  by (simp add: start_def name_sequence_def sequence_def processes_def thought_process_def
      attempt_def on_rejected_def on_fulfilled_def deaf_env_def loop_env_def plain_env_def
      listening_def heard_def idle_def create_def upd_st_def finish_def receiving_def
      default_validate_def default_action_def hear_action_def listen_action_def
      remember_validate_def remember_check_def remember_action_def dispatchedEnvelope_def
      empty_path_def)

theorem hear_failure_stops_branches_witness:
  "Acted ''hear'' False receiving \<in> set (fst (start deaf_env ''receive'' listening)) \<and>
   listen (path receiving) = [first_branch, second_branch, third_branch] \<and>
   filter is_Evaluated (fst (start deaf_env ''receive'' listening)) = []"
proof -
  have h: "Acted ''hear'' False receiving \<in> set (fst (start deaf_env ''receive'' listening))"
    by (simp add: deaf_run)
  have p: "listen (path receiving) = [first_branch, second_branch, third_branch]"
    by (simp add: receiving_def listening_def upd_st_def empty_path_def)
  from hear_failure_stops_branches [where E = deaf_env and w = listening] h p
  show ?thesis by blast
qed

lemma decimal_small: "decimal (Suc 0) = ''1''" "decimal 2 = ''2''"
  by code_simp+

lemma index_facts:
  "array_index ''first'' = None" "array_index ''second'' = None"
  "array_index ''third'' = None" "array_index ''catch'' = None"
  "array_index ''1'' = Some 1" "array_index ''2'' = Some 2"
  by (simp_all add: array_index_def is_digit_def digits_value_def decimal_small)

lemma for_in_listen:
  "for_in_branches [first_branch, second_branch, third_branch] =
     [first_branch, second_branch, third_branch]"
  by (rule for_in_plain)
     (simp add: first_branch_def second_branch_def third_branch_def index_facts)

lemma for_in_numbered: "for_in_branches [branch_two, branch_one] = [branch_one, branch_two]"
  by (simp add: for_in_branches_def index_key_def branch_two_def branch_one_def index_facts)

lemma listen_loop:
  "process_branches loop_env Completed [first_branch, second_branch, third_branch] listening =
     ([Evaluated ''first'' listening, Evaluated ''second'' listening], Resolved () after_second)"
  by (simp add: loop_env_def plain_env_def first_branch_def second_branch_def third_branch_def
      listening_def after_second_def heard_def idle_def create_def upd_st_def)

theorem thought_process_branches_witness:
  "branches listen_stage = Some [first_branch, second_branch, third_branch] \<and>
   \<not> b_exit (st listening) \<and> \<not> b_done (st listening) \<and>
   validate listen_stage listening = Resolved True listening \<and>
   process_branches loop_env (middleware listen_stage)
     (for_in_branches [first_branch, second_branch, third_branch]) listening =
     ([Evaluated ''first'' listening, Evaluated ''second'' listening], Resolved () after_second) \<and>
   b_matched (st after_second) \<and> b_done (st after_second) \<and>
   b_processed (st after_stamp) ''listen'' = Some 1000 \<and>
   thought_process loop_env listen_stage listening =
     ([Evaluated ''first'' listening, Evaluated ''second'' listening,
       Acted ''listen'' True after_stamp],
      Resolved () (after_stamp\<lparr>path := forced Understand (path after_stamp)\<rparr>))"
proof -
  have b: "branches listen_stage = Some [first_branch, second_branch, third_branch]"
    and m: "middleware listen_stage = Completed" and n: "name listen_stage = ''listen''"
    and ac: "action listen_stage = listen_action"
    by (simp_all add: listen_stage_def)
  have ne: "[first_branch, second_branch, third_branch] \<noteq> []" by simp
  have x: "\<not> b_exit (st listening)" and d: "\<not> b_done (st listening)"
    by (simp_all add: listening_def heard_def create_def)
  have v: "validate listen_stage listening = Resolved True listening"
    by (simp add: listen_stage_def default_validate_def)
  have l: "process_branches loop_env (middleware listen_stage)
     (for_in_branches [first_branch, second_branch, third_branch]) listening =
     ([Evaluated ''first'' listening, Evaluated ''second'' listening], Resolved () after_second)"
    by (simp only: m for_in_listen listen_loop)
  have a: "b_matched (st after_second)" "b_done (st after_second)"
    by (simp_all add: after_second_def upd_st_def)
  have p: "b_processed (st after_stamp) ''listen'' = Some 1000"
    by (simp add: after_stamp_def upd_st_def)
  have ws: "after_stamp =
      (if b_processed (st after_second) (name listen_stage) = None \<or>
          b_processed (st after_second) (name listen_stage) = Some 0
       then after_second\<lparr>st := (st after_second)\<lparr>b_processed :=
              (b_processed (st after_second))(name listen_stage \<mapsto> clock after_second)\<rparr>\<rparr>
       else after_second)"
    by (simp add: n after_stamp_def after_second_def listening_def heard_def idle_def
        create_def upd_st_def)
  have act: "action listen_stage True after_stamp =
               Resolved () (after_stamp\<lparr>path := forced Understand (path after_stamp)\<rparr>)"
    by (simp add: ac listen_action_def)
  from thought_process_branches [OF b ne x d v l ws] a(1)
  have "thought_process loop_env listen_stage listening =
     ([Evaluated ''first'' listening, Evaluated ''second'' listening,
       Acted ''listen'' True after_stamp],
      Resolved () (after_stamp\<lparr>path := forced Understand (path after_stamp)\<rparr>))"
    by (simp add: act n)
  with b x d v l a p show ?thesis by simp
qed

lemma numbered_loop:
  "process_branches plain_env Completed [branch_one, branch_two] listening =
     ([Evaluated ''1'' listening,
       Evaluated ''2'' (upd_st (\<lambda>s. s\<lparr>b_matched := True\<rparr>) listening)],
      Resolved () (upd_st (\<lambda>s. s\<lparr>b_matched := True\<rparr>) listening))"
  by (simp add: plain_env_def branch_one_def branch_two_def listening_def heard_def
      create_def upd_st_def)

lemma numbered_attempt:
  "fst (attempt plain_env numbered_stage listening) =
     [Evaluated ''1'' listening,
      Evaluated ''2'' (upd_st (\<lambda>s. s\<lparr>b_matched := True\<rparr>) listening)]"
proof -
  have b: "branches numbered_stage = Some [branch_two, branch_one]"
    and m: "middleware numbered_stage = Completed"
    and v: "validate numbered_stage listening = Resolved True listening"
    by (simp_all add: numbered_stage_def default_validate_def)
  have d: "\<not> b_done (st listening)"
    by (simp add: listening_def heard_def create_def)
  show ?thesis
    by (simp add: attempt_def b m v d for_in_numbered numbered_loop upd_st_def
        del: process_branches.simps)
qed

lemma numbered_run:
  "map ev_id (filter is_Evaluated (fst (thought_process plain_env numbered_stage listening))) =
     [''1'', ''2'']"
proof -
  have x: "\<not> b_exit (st listening)"
    by (simp add: listening_def heard_def create_def)
  have s1: "filter is_Evaluated (fst (on_fulfilled numbered_stage u)) = []" for u
    using settle_events(2) [of _ numbered_stage u] by (fastforce simp: filter_empty_conv)
  have s2: "filter is_Evaluated (fst (on_rejected numbered_stage e u)) = []" for e u
    using settle_events(1) [of _ numbered_stage e u] by (fastforce simp: filter_empty_conv)
  show ?thesis
    using numbered_attempt x s1 s2
    by (cases "attempt plain_env numbered_stage listening")
       (auto simp: thought_process_def case_prod_beta split: settled.splits)
qed

lemma matched_act_run:
  "thought_process plain_env act_stage matched_with_act =
     ([Acted ''act'' False matched_with_act], Resolved () matched_with_act)"
proof -
  have m: "b_matched (st matched_with_act)" "\<not> b_exit (st matched_with_act)"
    "\<not> b_done (st matched_with_act)"
    by (simp_all add: matched_with_act_def matched_world_def heard_def create_def upd_st_def)
  have t: "validate act_stage = act_validate" "branches act_stage = Some [catch_branch]"
    "action act_stage = default_action" "name act_stage = ''act''"
    by (simp_all add: act_stage_def)
  show ?thesis
    by (simp add: thought_process_def attempt_def on_rejected_def act_validate_def
        default_action_def m t)
qed

text \<open>
  The branches of a stage are not always evaluated in insertion order, and a stage with
  branches does not always succeed when \<^verbatim>\<open>state.matched\<close> is true: branches added under
  the ids \<^verbatim>\<open>2\<close> and \<^verbatim>\<open>1\<close> are evaluated as \<^verbatim>\<open>1\<close>, \<^verbatim>\<open>2\<close>; and the \<^verbatim>\<open>act\<close> stage of
  a matched state, whose validator returns false, ends with \<^verbatim>\<open>action(false)\<close>.
\<close>

theorem thought_process_branches_counterexample:
  "branches numbered_stage = Some [branch_two, branch_one] \<and>
   map bid [branch_two, branch_one] = [''2'', ''1''] \<and>
   map ev_id (filter is_Evaluated (fst (thought_process plain_env numbered_stage listening))) =
     [''1'', ''2''] \<and>
   branches act_stage = Some [catch_branch] \<and>
   b_matched (st matched_with_act) \<and>
   thought_process plain_env act_stage matched_with_act =
     ([Acted ''act'' False matched_with_act], Resolved () matched_with_act)"
proof -
  have "branches numbered_stage = Some [branch_two, branch_one]"
    by (simp add: numbered_stage_def)
  moreover have "map bid [branch_two, branch_one] = [''2'', ''1'']"
    by (simp add: branch_two_def branch_one_def)
  moreover have "branches act_stage = Some [catch_branch]"
    by (simp add: act_stage_def)
  moreover have "b_matched (st matched_with_act)"
    by (simp add: matched_with_act_def matched_world_def upd_st_def)
  ultimately show ?thesis
    using numbered_run matched_act_run by (intro conjI)
qed

lemma stamped_facts:
  "b_processed (st stamped) ''listen'' = Some 1000" "clock stamped = 2000"
  by (simp_all add: stamped_def upd_st_def)

theorem processed_written_once_witness:
  "b_processed (st stamped) (name listen_stage) = Some 1000 \<and> clock stamped = 2000 \<and>
   b_processed (st (world_of (snd (thought_process loop_env listen_stage stamped))))
     (name listen_stage) = Some 1000"
proof -
  have n: "name listen_stage = ''listen''" by (simp add: listen_stage_def)
  have t: "b_processed (st stamped) (name listen_stage) = Some 1000" "(0::nat) < 1000"
    by (simp_all add: n stamped_facts)
  have v: "b_processed (st (world_of (validate listen_stage u))) (name listen_stage) =
             b_processed (st u) (name listen_stage)" for u
    by (simp add: listen_stage_def default_validate_def)
  have m: "b_processed (st (mw_world (middleware listen_stage u))) (name listen_stage) =
             b_processed (st u) (name listen_stage)" for u
    by (simp add: listen_stage_def)
  have b: "b_processed (st (world_of (branch_process loop_env br (middleware listen_stage) u)))
             (name listen_stage) = b_processed (st u) (name listen_stage)" for br u
    by (simp add: loop_env_def plain_env_def upd_st_def)
  have a: "b_processed (st (world_of (action listen_stage s u))) (name listen_stage) =
             b_processed (st u) (name listen_stage)" for s u
    by (simp add: listen_stage_def listen_action_def)
  from processed_written_once [of stamped listen_stage 1000 loop_env, OF t v m b a] t(1) stamped_facts(2)
  show ?thesis by simp
qed

lemmas run_defs =
  for_in_plain index_facts receive_def Let_def engaged_def progressPath_def settle_dialogue_def
  start_def name_sequence_def sequence_def processes_def thought_process_def attempt_def
  on_rejected_def on_fulfilled_def stamp_def falsy_def
  create_def upd_st_def finish_def
  default_validate_def default_action_def hear_action_def listen_action_def
  remember_validate_def remember_check_def remember_action_def dispatchedEnvelope_def
  byId_def hasBranches_def close_def revertPath_def
  understand_validate_def act_validate_def

lemmas example_defs =
  chatty_env_def quiet_env_def deaf_to_all_def loop_env_def plain_env_def
  engaged_world_def idle_def dialogue_path_def follow_up_def
  empty_path_def second_branch_def third_branch_def hello_def alice_def

lemma settle_dialogue_cases:
  assumes "dialogues w k = Some d"
  shows "dialogues (settle_dialogue k w) k =
           (if \<not> b_matched (st w) then Some (revertPath d)
            else if hasBranches (dpath d) then None
            else Some d)"
  using assms by (simp add: settle_dialogue_def close_def)

text \<open>
  C1. What \<^verbatim>\<open>receive\<close> does at two inputs under an engaged dialogue. A run that
  matched and added no branch to the fresh path leaves the dialogue in the registry,
  with its empty fresh path; a run that matched and added a follow-up branch removes
  the dialogue. The documentation of \<^verbatim>\<open>receive\<close> asks for the opposite (close the
  dialogue when branches matched and none were added): the test
  \<^verbatim>\<open>dlg.path.hasBranches()\<close> lacks its negation.
\<close>

theorem receive_dialogue_close_inverted:
  "(\<exists>s w. snd (receive quiet_env hello None engaged_world) = Resolved s w \<and> b_matched s \<and>
      dialogues w ''u1'' = Some \<lparr>dpath = empty_path, previousPath = Some dialogue_path\<rparr>) \<and>
   (\<exists>s w. snd (receive chatty_env hello None engaged_world) = Resolved s w \<and> b_matched s \<and>
      dialogues w ''u1'' = None)"
  by (simp add: run_defs example_defs)

lemma receive_unmatched_reverts:
  "\<exists>s w. snd (receive deaf_to_all hello None engaged_world) = Resolved s w \<and> \<not> b_matched s \<and>
      dialogues w ''u1'' = Some \<lparr>dpath = dialogue_path, previousPath = None\<rparr>"
  by (simp add: run_defs example_defs)

section \<open>The adapters\<close>

lemma decimal_digits: "decimal 0 = ''0''" "decimal (Suc 0) = ''1''"
  by code_simp+

lemma reply_sends_keys:
  assumes "e_strings e = Some ss" and "e_user e = Some u" and "e_room_id e = Some r" and "r \<noteq> []"
  shows "\<exists>e'. respond e ''reply'' = Inr (map (\<lambda>k. SendToRoomId (decimal k) r) [0..<length ss], e')"
  using assms by (simp add: respond_def keys_in_def Let_def comp_def)

text \<open>
  C7. What \<^verbatim>\<open>respond\<close> does with method \<^verbatim>\<open>reply\<close> at two envelopes with the strings
  \<^verbatim>\<open>hello\<close> and \<^verbatim>\<open>bye\<close>. In a room whose id does not contain the user's id the
  strings of the envelope are prefixed with \<^verbatim>\<open>@bob \<close>, in a room whose id contains
  it they stay as they are; in both rooms what is sent is not the strings but their
  indices \<^verbatim>\<open>0\<close> and \<^verbatim>\<open>1\<close>, because the loop runs over the keys of the array.
\<close>

theorem reply_sends_indices:
  "respond reply_envelope ''reply'' =
     Inr ([SendToRoomId ''0'' ''general'', SendToRoomId ''1'' ''general''],
          reply_envelope\<lparr>e_strings := Some [''@bob hello'', ''@bob bye'']\<rparr>) \<and>
   respond direct_envelope ''reply'' =
     Inr ([SendToRoomId ''0'' ''botu1'', SendToRoomId ''1'' ''botu1''], direct_envelope)"
  by (simp add: respond_def reply_envelope_def direct_envelope_def bob_def keys_in_def
      indexOf_def template_def decimal_digits Let_def)

lemma last_match_last:
  "last_match params item m =
     (if params = [] then m else strict_eq (field item (fst (last params))) (snd (last params)))"
  by (induction params item m rule: last_match.induct) auto

lemma find_mongo_last_key:
  assumes "query_store lc s params db = Some d" and "\<not> list_ex nullish (elements d)"
    and "params \<noteq> []"
  shows "find_mongo lc s params db =
           Inr (Some (filter (\<lambda>item. strict_eq (field item (fst (last params)))
                                  (snd (last params))) (elements d)))"
  using assms by (simp add: find_mongo_def last_match_last)

lemma lowercase_states: "ascii_lower ''states'' = ''states''"
  by code_simp

text \<open>
  C8. What \<^verbatim>\<open>find\<close> and \<^verbatim>\<open>findOne\<close> return at a store of two states that agree in
  \<^verbatim>\<open>b\<close> and differ in \<^verbatim>\<open>a\<close>, asked for \<^verbatim>\<open>{ a: 1, b: 2 }\<close>. \<^verbatim>\<open>find\<close> returns both
  states, although the second differs from the parameters in \<^verbatim>\<open>a\<close>: its callback
  overwrites \<^verbatim>\<open>match\<close> for every key, so only the last key decides. \<^verbatim>\<open>findOne\<close>
  returns the first state, the one that matches every key. With empty parameters
  \<^verbatim>\<open>find\<close> returns no element at all.
\<close>

theorem find_keeps_last_key_matches:
  "find_mongo ascii_lower ''states'' both_keys states_db = Inr (Some [state_one, state_two]) \<and>
   \<not> elem_match both_keys state_two \<and>
   findOne ascii_lower ''states'' both_keys states_db = Some state_one \<and>
   find_mongo ascii_lower ''states'' [] states_db = Inr (Some [])"
  by (simp add: find_mongo_def findOne_def query_store_def elements_def elem_match_def
      states_db_def both_keys_def state_one_def state_two_def lowercase_states nullish_def)

lemma findOne_matches:
  "findOne lc s params db = Some item \<Longrightarrow> elem_match params item"
  "findOne lc s params db = None \<Longrightarrow> d \<in> set db \<Longrightarrow> doc_type d = ''store'' \<Longrightarrow>
     sub d = lc s \<Longrightarrow> item \<in> set (elements d) \<Longrightarrow> \<not> elem_match params item"
   apply (auto simp: findOne_def query_store_def find_Some_iff find_None_iff list_ex_iff
      split: option.splits)
  done

lemma obj_set_map_of: "map_of (obj_set k v kvs) = (map_of kvs)(k \<mapsto> v)"
  by (induction kvs) (auto simp: fun_eq_iff)

lemma obj_set_keys: "set (map fst (obj_set k v kvs)) = insert k (set (map fst kvs))"
proof (induction kvs)
  case Nil
  show ?case by simp
next
  case (Cons p kvs)
  obtain k' v' where p: "p = (k', v')" by (cases p)
  with Cons show ?case by (cases "k = k'") auto
qed

lemma obj_set_distinct: "distinct (map fst kvs) \<Longrightarrow> distinct (map fst (obj_set k v kvs))"
  by (induction kvs) (auto simp: obj_set_keys [simplified])

lemma obj_set_new: "k \<notin> set (map fst kvs) \<Longrightarrow> obj_set k v kvs = kvs @ [(k, v)]"
  by (induction kvs) auto

lemma view_upsert:
  "memory_view (upsert_memory lc s v db) = obj_set (lc s) v (memory_view db)"
  by (induction db) (auto simp: memory_view_def)

lemma view_save:
  "memory_view (saveMemory lc x db) = fold (\<lambda>(k, v). obj_set (lc k) v) x (memory_view db)"
  by (induction x arbitrary: db) (auto simp: view_upsert)

lemma fold_set_distinct:
  "distinct (map fst kvs) \<Longrightarrow>
     distinct (map fst (fold (\<lambda>(k, v). obj_set (f k) v) x kvs))"
  by (induction x arbitrary: kvs) (auto simp: obj_set_distinct)

lemma fold_set_map_of:
  assumes "distinct (map fst x)" and "\<forall>k\<in>set (map fst x). f k = k"
  shows "map_of (fold (\<lambda>(k, v). obj_set (f k) v) x kvs) = map_of kvs ++ map_of x"
  using assms
proof (induction x arbitrary: kvs)
  case Nil
  show ?case by simp
next
  case (Cons p x)
  obtain k v where p: "p = (k, v)" by (cases p)
  from Cons.prems p have k: "f k = k" "k \<notin> set (map fst x)" by auto
  then have "map_of x k = None" by (simp add: map_of_eq_None_iff)
  with Cons p k show ?case
    by (auto simp: obj_set_map_of fun_eq_iff map_add_def split: option.splits)
qed

lemma fold_set_new:
  assumes "distinct (map fst x)" and "\<forall>k\<in>set (map fst x). f k = k"
    and "set (map fst x) \<inter> set (map fst kvs) = {}"
  shows "fold (\<lambda>(k, v). obj_set (f k) v) x kvs = kvs @ x"
  using assms
proof (induction x arbitrary: kvs)
  case Nil
  show ?case by simp
next
  case (Cons p x)
  obtain k v where p: "p = (k, v)" by (cases p)
  from Cons.prems p have k: "f k = k" "k \<notin> set (map fst kvs)" by auto
  from Cons.prems p have "set (map fst x) \<inter> set (map fst (kvs @ [(k, v)])) = {}" by auto
  with Cons.IH [of "kvs @ [(k, v)]"] Cons.prems p k show ?case
    by (simp add: obj_set_new)
qed

lemma load_users_new:
  assumes "distinct (map fst kvs)" and "set (map fst kvs) \<inter> set (map fst us) = {}"
  shows "load_users newUser kvs us = us @ map (\<lambda>(i, r). (i, newUser r)) kvs"
  using assms
proof (induction kvs arbitrary: us)
  case Nil
  show ?case by simp
next
  case (Cons p kvs)
  obtain i r where p: "p = (i, r)" by (cases p)
  from Cons.prems p have i: "i \<notin> set (map fst us)" by auto
  from Cons.prems p have "set (map fst kvs) \<inter> set (map fst (us @ [(i, newUser r)])) = {}"
    by auto
  with Cons.IH [of "us @ [(i, newUser r)]"] Cons.prems p i show ?case
    by (simp add: obj_set_new)
qed

lemma load_docs_new:
  assumes "distinct (map sub ds)" and "set (map sub ds) \<inter> set (map fst memory) = {}"
  shows "load_docs newUser ds memory =
           memory @ map (\<lambda>d. (sub d, entry_of newUser (sub d) (data d))) ds"
  using assms
proof (induction ds arbitrary: memory)
  case Nil
  show ?case by simp
next
  case (Cons d ds)
  let ?e = "entry_of newUser (sub d) (data d)"
  from Cons.prems have new: "sub d \<notin> set (map fst memory)" by auto
  then have none: "map_of memory (sub d) = None" by (simp add: map_of_eq_None_iff)
  have step: "(if sub d = ''users''
        then obj_set ''users''
               (Users (load_users newUser (for_in (data d))
                  (case map_of memory ''users'' of Some (Users us) \<Rightarrow> us | _ \<Rightarrow> [])))
               memory
        else obj_set (sub d) (Plain (data d)) memory) = memory @ [(sub d, ?e)]"
    using new none by (auto simp: entry_of_def obj_set_new)
  from Cons.prems have "set (map sub ds) \<inter> set (map fst (memory @ [(sub d, ?e)])) = {}"
    by auto
  with Cons.IH [of "memory @ [(sub d, ?e)]"] Cons.prems step show ?case
    by simp
qed

lemma loadMemory_view:
  assumes "distinct (map fst (memory_view db))"
  shows "loadMemory newUser db = map (\<lambda>(k, v). (k, entry_of newUser k v)) (memory_view db)"
proof -
  have "distinct (map sub (filter (\<lambda>d. doc_type d = ''memory'') db))"
    using assms by (simp add: memory_view_def comp_def)
  from load_docs_new [OF this, of "[]" newUser] show ?thesis
    by (simp add: loadMemory_def memory_view_def comp_def)
qed

lemma map_of_entries:
  "map_of (map (\<lambda>(k, v). (k, g k v)) kvs) k = map_option (g k) (map_of kvs k)"
  by (induction kvs) auto


text \<open>
  C9, as amended. Let \<open>x\<close> be a mapping with distinct keys that
  \<^verbatim>\<open>toLowerCase\<close> leaves as they are, whose
  \<^verbatim>\<open>users\<close> entry, if it has one, is a mapping from user ids to user records, and let
  the memory documents of the store have distinct sub-collections, all of them keys of
  \<open>x\<close>. Then \<^verbatim>\<open>loadMemory()\<close> after \<^verbatim>\<open>saveMemory(x)\<close> returns a mapping equal to
  \<open>x\<close> with the user records rehydrated as user objects and every other entry
  unchanged; on a store without memory documents the entries also come in the order of
  \<open>x\<close>.
\<close>

theorem memory_round_trip:
  assumes keys: "distinct (map fst x)"
    and lower: "\<forall>k\<in>set (map fst x). toLowerCase k = k"
    and users: "\<forall>v. (''users'', v) \<in> set x \<longrightarrow> (\<exists>us. v = JObj us \<and> distinct (map fst us))"
    and store: "distinct (map fst (memory_view db))"
               "set (map fst (memory_view db)) \<subseteq> set (map fst x)"
  shows "map_of (loadMemory newUser (saveMemory toLowerCase x db)) = map_of (rehydrate newUser x) \<and>
         distinct (map fst (loadMemory newUser (saveMemory toLowerCase x db))) \<and>
         (memory_view db = [] \<longrightarrow> loadMemory newUser (saveMemory toLowerCase x db) = rehydrate newUser x)"
proof -
  let ?view = "memory_view (saveMemory toLowerCase x db)"
  let ?re = "\<lambda>k v. if k = ''users'' then Users (map (\<lambda>(i, r). (i, newUser r)) (for_in v))
                     else Plain v"
  have view: "?view = fold (\<lambda>(k, v). obj_set (toLowerCase k) v) x (memory_view db)"
    by (rule view_save)
  have d1: "distinct (map fst ?view)"
    unfolding view using store(1) by (rule fold_set_distinct)
  have m1: "map_of ?view = map_of x"
  proof
    fix k
    have "map_of ?view k = (map_of (memory_view db) ++ map_of x) k"
      unfolding view using fold_set_map_of [OF keys lower] by simp
    also have "\<dots> = map_of x k"
    proof (cases "map_of x k")
      case None
      then have "k \<notin> set (map fst x)" by (simp add: map_of_eq_None_iff)
      with store(2) have "map_of (memory_view db) k = None"
        by (auto simp: map_of_eq_None_iff)
      with None show ?thesis by (simp add: map_add_def)
    next
      case (Some v)
      then show ?thesis by (simp add: map_add_def)
    qed
    finally show "map_of ?view k = map_of x k" .
  qed
  have load: "loadMemory newUser (saveMemory toLowerCase x db) =
                map (\<lambda>(k, v). (k, entry_of newUser k v)) ?view"
    using d1 by (rule loadMemory_view)
  have same: "entry_of newUser k v = ?re k v" if "(k, v) \<in> set x" for k v
  proof (cases "k = ''users''")
    case True
    with that users obtain us where us: "v = JObj us" "distinct (map fst us)" by blast
    from load_users_new [of us "[]" newUser] us True show ?thesis
      by (simp add: entry_of_def)
  next
    case False
    then show ?thesis by (simp add: entry_of_def)
  qed
  have re: "rehydrate newUser x = map (\<lambda>(k, v). (k, ?re k v)) x"
    by (simp add: rehydrate_def)
  have maps: "map_of (loadMemory newUser (saveMemory toLowerCase x db)) = map_of (rehydrate newUser x)"
  proof
    fix k
    have "map_of (loadMemory newUser (saveMemory toLowerCase x db)) k =
            map_option (entry_of newUser k) (map_of x k)"
      unfolding load by (simp add: map_of_entries m1)
    also have "\<dots> = map_option (?re k) (map_of x k)"
    proof (cases "map_of x k")
      case None
      then show ?thesis by simp
    next
      case (Some v)
      then have "(k, v) \<in> set x" by (rule map_of_SomeD)
      with Some same show ?thesis by simp
    qed
    also have "\<dots> = map_of (rehydrate newUser x) k"
      unfolding re by (simp add: map_of_entries)
    finally show "map_of (loadMemory newUser (saveMemory toLowerCase x db)) k =
                    map_of (rehydrate newUser x) k" .
  qed
  have dist: "distinct (map fst (loadMemory newUser (saveMemory toLowerCase x db)))"
    unfolding load using d1 by (simp add: comp_def case_prod_beta)
  have fresh: "loadMemory newUser (saveMemory toLowerCase x db) = rehydrate newUser x"
    if "memory_view db = []"
  proof -
    from that fold_set_new [OF keys lower, of "[]"] have "?view = x"
      unfolding view by simp
    with load same show ?thesis
      unfolding re by auto
  qed
  from maps dist fresh show ?thesis by blast
qed

lemma lowercase_examples:
  "ascii_lower ''users'' = ''users''" "ascii_lower ''private'' = ''private''"
  "ascii_lower ''Private'' = ''private''"
  by code_simp+

text \<open>
  The round trip is not the identity on every store and every mapping: a memory document
  of a sub-collection that \<open>x\<close> does not have is loaded along with \<open>x\<close>, a key in
  upper case comes back in lower case, and of two memory documents of one sub-collection
  the second, which \<^verbatim>\<open>saveMemory\<close> does not update, is the one loaded.
\<close>

theorem memory_round_trip_counterexample:
  "map_of (loadMemory (\<lambda>r. r) (saveMemory ascii_lower one_user stale_db)) ''private'' \<noteq>
     map_of (rehydrate (\<lambda>r. r) one_user) ''private'' \<and>
   map_of (loadMemory (\<lambda>r. r) (saveMemory ascii_lower upper_key [])) ''Private'' \<noteq>
     map_of (rehydrate (\<lambda>r. r) upper_key) ''Private'' \<and>
   map_of (loadMemory (\<lambda>r. r) (saveMemory ascii_lower one_sub twice_db)) ''private'' \<noteq>
     map_of (rehydrate (\<lambda>r. r) one_sub) ''private''"
  by (simp add: loadMemory_def rehydrate_def one_user_def stale_db_def upper_key_def
      one_sub_def twice_db_def lowercase_examples)

theorem memory_round_trip_witness:
  "distinct (map fst two_subs) \<and> memory_view stale_db = [(''private'', JStr ''old'')] \<and>
   map_of (loadMemory (\<lambda>r. r) (saveMemory ascii_lower two_subs stale_db)) =
     map_of (rehydrate (\<lambda>r. r) two_subs) \<and>
   loadMemory (\<lambda>r. r) (saveMemory ascii_lower two_subs []) =
     [(''users'', Users [(''u1'', JObj [(''name'', JStr ''alice'')])]),
      (''private'', Plain (JStr ''new''))]"
proof -
  have k: "distinct (map fst two_subs)" by (simp add: two_subs_def)
  have l: "\<forall>k\<in>set (map fst two_subs). ascii_lower k = k"
    by (simp add: two_subs_def lowercase_examples)
  have u: "\<forall>v. (''users'', v) \<in> set two_subs \<longrightarrow> (\<exists>us. v = JObj us \<and> distinct (map fst us))"
    by (simp add: two_subs_def)
  have v: "memory_view stale_db = [(''private'', JStr ''old'')]"
    by (simp add: memory_view_def stale_db_def)
  have s: "distinct (map fst (memory_view stale_db))"
    "set (map fst (memory_view stale_db)) \<subseteq> set (map fst two_subs)"
    by (simp_all add: v two_subs_def)
  have e: "distinct (map fst (memory_view []))"
    "set (map fst (memory_view [])) \<subseteq> set (map fst two_subs)" "memory_view [] = []"
    by (simp_all add: memory_view_def)
  have r: "rehydrate (\<lambda>r. r) two_subs =
     [(''users'', Users [(''u1'', JObj [(''name'', JStr ''alice'')])]),
      (''private'', Plain (JStr ''new''))]"
    by (simp add: rehydrate_def two_subs_def)
  from memory_round_trip [OF k l u s, of "\<lambda>r. r"] memory_round_trip [OF k l u e(1,2), of "\<lambda>r. r"]
    k v e(3) r
  show ?thesis by simp
qed

end
